(* ===== verification/Prelude.thy ===== *)
theory Prelude
  imports Main
begin

text \<open>
  Shared vocabulary of the development: the address and link types that model Rust's
  \<open>Box\<close> pointers and raw pointers, the undefined-behaviour outcome that every
  dereference may produce, the named collection of representation rules that the
  component proofs use, and generic lemmas on lists and partial maps that several
  component theories share.
\<close>

section \<open>Addresses, links and undefined behaviour\<close>

text \<open>
  A heap address is a natural number; no arithmetic is ever done on it, so it needs no
  machine width. A link (\<open>Option<Box<Node<T>>>\<close> in the source, or a raw pointer
  \<open>*mut Node<T>\<close> where \<open>None\<close> is \<open>ptr::null_mut()\<close>) is an optional address.
\<close>

type_synonym addr = nat

type_synonym link = "addr option"

text \<open>
  Reading a node through a pointer that designates no live node (freed, or never
  allocated) is undefined behaviour in Rust. The model does not pick a value for it: it
  returns this error, so every dereference of the source is a branch of the model.
\<close>

datatype ub = Dangling addr

named_theorems repr_simps "rules that evaluate the heap representation predicates"

section \<open>Generic lemmas\<close>

lemma map_fun_upd_notin [simp]:
  "x \<notin> set xs \<Longrightarrow> map (\<lambda>a. f ((h(x := v)) a)) xs = map (\<lambda>a. f (h a)) xs"
  by (induction xs) auto

lemma restrict_map_UNIV_id [simp]:
  "h |` UNIV = h"
  by (rule ext) (simp add: restrict_map_def)

lemma restrict_map_compl_single:
  "h |` (- {a}) = h(a := None)"
  by (rule ext) (simp add: restrict_map_def)

text \<open>Two maps that agree outside a set of addresses live in both have the same domain.\<close>

lemma dom_eq_frame:
  assumes "\<forall>b. b \<notin> S \<longrightarrow> f b = g b" and "S \<subseteq> dom f" and "S \<subseteq> dom g"
  shows "dom f = dom g"
proof
  show "dom f \<subseteq> dom g" using assms by (metis domIff subset_iff)
  show "dom g \<subseteq> dom f" using assms by (metis domIff subset_iff)
qed

lemma card_subset_two: "A \<subseteq> {x, y} \<Longrightarrow> card A \<le> 2"
proof -
  assume "A \<subseteq> {x, y}"
  then have "card A \<le> card {x, y}" by (rule card_mono [rotated]) simp
  also have "\<dots> \<le> 2" by (simp add: card_insert_if)
  finally show ?thesis .
qed

lemma distinct_butlast_last:
  "distinct xs \<Longrightarrow> xs \<noteq> [] \<Longrightarrow> last xs \<notin> set (butlast xs)"
  by (metis append_butlast_last_id distinct_append disjoint_iff list.set_intros(1))

end
