(* ===== verification/Memory.thy ===== *)
theory Memory
  imports Prelude
begin

text \<open>
  The heap that the queue's nodes live in. \<open>Node<T>\<close> of \<open>src/src/fifth.rs\<close> is the
  record \<open>Node\<close>; the heap maps each address to the node stored there, or to nothing
  when the address is free. \<open>Box::new\<close> is \<open>box_new\<close>, parametrised by the
  global allocator's choice of address: any allocator that hands out a free address
  (\<open>alloc_ok\<close>, after the \<open>new_Addr\<close> contract of the Jinja heap), such as the bump
  allocator \<open>bump\<close> or the first-fit allocator \<open>first_fit\<close> that reuses freed cells.
  \<open>mem_ok\<close> keeps every live cell below a high-water mark \<open>brk\<close>, so the heap is finite. A chain of nodes linked by their \<open>next\<close> fields is described by the segment
  predicate \<open>lseg\<close>, after the \<open>Path\<close> predicate of the Hoare heap theories, and
  its contents by \<open>vals\<close>.
\<close>

section \<open>Nodes, heap, allocation\<close>

record 'a Node =
  elem :: 'a
  "next" :: link

type_synonym 'a heap = "addr \<Rightarrow> 'a Node option"

record 'a mem =
  cells :: "'a heap"
  brk :: addr

text \<open>The allocator's state is sound when every live cell lies below the break.\<close>

definition mem_ok :: "'a mem \<Rightarrow> bool" where
  "mem_ok m \<longleftrightarrow> (\<forall>a\<in>dom (cells m). a < brk m)"

definition empty_mem :: "'a mem" where
  "empty_mem = \<lparr>cells = Map.empty, brk = 0\<rparr>"

text \<open>
  The global allocator chooses the address of each new box from the heap's state. Its
  contract: from a sound state it returns an address that is not live.
\<close>

type_synonym 'a allocator = "'a mem \<Rightarrow> addr"

definition alloc_ok :: "'a allocator \<Rightarrow> bool" where
  "alloc_ok alloc \<longleftrightarrow> (\<forall>m. mem_ok m \<longrightarrow> cells m (alloc m) = None)"

text \<open>Two allocators: a bump allocator that never reuses an address, and a first-fit
  allocator that returns the lowest free address below the high-water mark.\<close>

definition bump :: "'a allocator" where
  "bump m = brk m"

definition first_fit :: "'a allocator" where
  "first_fit m = (case find (\<lambda>a. cells m a = None) [0..<brk m] of None \<Rightarrow> brk m | Some a \<Rightarrow> a)"

text \<open>An allocator that hands out the address \<open>a\<close> whenever it is free: with it, a
  client can place each node where it likes.\<close>

definition prefer_at :: "addr \<Rightarrow> 'a allocator" where
  "prefer_at a m = (if cells m a = None then a else brk m)"

text \<open>\<open>Box::new(node)\<close>: store the node at the address the allocator chooses and return
  the address.\<close>

definition box_new :: "'a allocator \<Rightarrow> 'a Node \<Rightarrow> 'a mem \<Rightarrow> addr \<times> 'a mem" where
  "box_new alloc n m =
     (let a = alloc m in (a, m\<lparr>cells := (cells m)(a \<mapsto> n), brk := max (brk m) (Suc a)\<rparr>))"

text \<open>Dereferencing a pointer: the node it designates, or undefined behaviour.\<close>

definition load :: "'a heap \<Rightarrow> addr \<Rightarrow> ub + 'a Node" where
  "load h a = (case h a of None \<Rightarrow> Inl (Dangling a) | Some n \<Rightarrow> Inr n)"

section \<open>Chains of nodes\<close>

text \<open>
  \<open>lseg h p as q\<close>: following \<open>next\<close> links from \<open>p\<close> visits exactly the live
  nodes at the addresses \<open>as\<close>, in order, and arrives at \<open>q\<close>.
\<close>

primrec lseg :: "'a heap \<Rightarrow> link \<Rightarrow> addr list \<Rightarrow> link \<Rightarrow> bool" where
  "lseg h p [] q \<longleftrightarrow> p = q"
| "lseg h p (a # as) q \<longleftrightarrow>
     p = Some a \<and> (case h a of None \<Rightarrow> False | Some n \<Rightarrow> lseg h (next n) as q)"

text \<open>The elements stored at a list of addresses.\<close>

definition vals :: "'a heap \<Rightarrow> addr list \<Rightarrow> 'a list" where
  "vals h as = map (\<lambda>a. elem (the (h a))) as"

section \<open>Drop glue and field assignment\<close>

text \<open>
  Dropping a value of type \<open>Link<T> = Option<Box<Node<T>>>\<close>: the drop glue the compiler
  generates drops the node's fields, the \<open>next\<close> link first, recursively, and then frees
  the box. On a chain that runs into a cycle the recursion does not end, which is the value
  \<open>None\<close> (in the machine, a stack overflow).
\<close>

partial_function (option) drop_link :: "link \<Rightarrow> 'a mem \<Rightarrow> (ub + 'a mem) option" where
  "drop_link p m =
     (case p of
        None \<Rightarrow> Some (Inr m)
      | Some a \<Rightarrow>
          (case load (cells m) a of
             Inl e \<Rightarrow> Some (Inl e)
           | Inr node \<Rightarrow>
               Option.bind (drop_link (next node) m)
                 (\<lambda>r. case r of
                        Inl e \<Rightarrow> Some (Inl e)
                      | Inr m' \<Rightarrow> Some (Inr (m'\<lparr>cells := (cells m')(a := None)\<rparr>)))))"

text \<open>
  The assignment \<open>(*t).next = v\<close> through a pointer to a node: the node must be live,
  the value the field holds is dropped in place, and the new value is stored into the
  field of the node, which must still be live after that drop.
\<close>

definition assign_next :: "addr \<Rightarrow> link \<Rightarrow> 'a mem \<Rightarrow> (ub + 'a mem) option" where
  "assign_next t v m =
     (case load (cells m) t of
        Inl e \<Rightarrow> Some (Inl e)
      | Inr n \<Rightarrow>
          Option.bind (drop_link (next n) m)
            (\<lambda>r. case r of
                   Inl e \<Rightarrow> Some (Inl e)
                 | Inr m' \<Rightarrow>
                     (case load (cells m') t of
                        Inl e \<Rightarrow> Some (Inl e)
                      | Inr n' \<Rightarrow> Some (Inr (m'\<lparr>cells := (cells m')(t \<mapsto> n'\<lparr>next := v\<rparr>)\<rparr>)))))"

section \<open>Lemmas\<close>

lemma load_Some [simp]: "h a = Some n \<Longrightarrow> load h a = Inr n"
  by (simp add: load_def)

lemma load_None [simp]: "h a = None \<Longrightarrow> load h a = Inl (Dangling a)"
  by (simp add: load_def)

lemma lseg_Cons_iff [repr_simps]:
  "lseg h p (a # as) q \<longleftrightarrow> p = Some a \<and> (\<exists>n. h a = Some n \<and> lseg h (next n) as q)"
  by (auto split: option.splits)

lemma lseg_None_start [simp]: "lseg h None as q \<longleftrightarrow> as = [] \<and> q = None"
  by (cases as) auto

lemma lseg_append [repr_simps]:
  "lseg h p (as @ bs) r \<longleftrightarrow> (\<exists>q. lseg h p as q \<and> lseg h q bs r)"
  by (induction as arbitrary: p) (auto split: option.splits)

lemma lseg_upd_notin [simp]:
  "x \<notin> set as \<Longrightarrow> lseg (h(x := v)) p as q = lseg h p as q"
  by (induction as arbitrary: p) (auto split: option.splits)

text \<open>A chain, and its contents, depend only on the cells at its own addresses.\<close>

lemma lseg_frame:
  "\<forall>b\<in>set as. h' b = h b \<Longrightarrow> lseg h' p as q = lseg h p as q"
  by (induction as arbitrary: p) (auto split: option.splits)

lemma vals_frame:
  "\<forall>b\<in>set as. h' b = h b \<Longrightarrow> vals h' as = vals h as"
  by (simp add: vals_def)

lemma lseg_in_dom: "lseg h p as q \<Longrightarrow> set as \<subseteq> dom h"
  by (induction as arbitrary: p) (auto split: option.splits)

lemma lseg_unique:
  "lseg h p as None \<Longrightarrow> lseg h p bs None \<Longrightarrow> as = bs"
proof (induction as arbitrary: p bs)
  case Nil
  then show ?case by (cases bs) auto
next
  case (Cons a as)
  then show ?case by (cases bs) (auto split: option.splits)
qed

text \<open>A chain that ends in a null link never revisits a node: it has no cycle.\<close>

lemma lseg_hd_notin:
  assumes "h a = Some n" and "lseg h (next n) as None"
  shows "a \<notin> set as"
proof
  assume "a \<in> set as"
  then obtain xs ys where as: "as = xs @ a # ys" by (meson split_list)
  with assms(2) obtain q where "lseg h (next n) xs q" and "lseg h q (a # ys) None"
    by (auto simp: lseg_append)
  with assms(1) have "lseg h (next n) ys None" and "lseg h (next n) (xs @ [a]) (next n)"
    by (auto simp: lseg_append)
  with assms(2) have "as = ys" by (blast intro: lseg_unique)
  with as show False by simp
qed

lemma lseg_distinct: "lseg h p as None \<Longrightarrow> distinct as"
proof (induction as arbitrary: p)
  case Nil
  then show ?case by simp
next
  case (Cons a as)
  then obtain n where "h a = Some n" and "lseg h (next n) as None"
    by (auto split: option.splits)
  with Cons.IH show ?case by (auto dest: lseg_hd_notin)
qed

text \<open>The last node of a null-terminated chain is live and its \<open>next\<close> is null.\<close>

lemma lseg_last:
  assumes "lseg h p as None" and "as \<noteq> []"
  shows "\<exists>n. h (last as) = Some n \<and> next n = None"
proof -
  from assms(2) have "as = butlast as @ [last as]" by simp
  with assms(1) obtain q where "lseg h q [last as] None"
    by (metis lseg_append)
  then show ?thesis by (auto split: option.splits)
qed

text \<open>Redirecting the \<open>next\<close> link of the last node of a chain without repeated nodes
  makes the chain end where that link now points.\<close>

lemma lseg_relink_last:
  "lseg h p as q \<Longrightarrow> as \<noteq> [] \<Longrightarrow> distinct as \<Longrightarrow> h (last as) = Some n \<Longrightarrow>
   lseg (h(last as \<mapsto> n\<lparr>next := q'\<rparr>)) p as q'"
proof (induction as arbitrary: p)
  case Nil
  then show ?case by simp
next
  case (Cons b bs)
  show ?case
  proof (cases "bs = []")
    case True
    with Cons.prems show ?thesis by auto
  next
    case False
    then have "b \<noteq> last bs" using Cons.prems(3) by auto
    with Cons.prems Cons.IH False show ?thesis by (auto split: option.splits)
  qed
qed

text \<open>Rewriting a node's \<open>next\<close> field leaves every element in place.\<close>

lemma vals_upd_next [simp]:
  "h t = Some n \<Longrightarrow> vals (h(t \<mapsto> n\<lparr>next := q\<rparr>)) as = vals h as"
  by (induction as) (auto simp: vals_def)

lemma vals_upd_notin [simp]:
  "x \<notin> set as \<Longrightarrow> vals (h(x := v)) as = vals h as"
  by (simp add: vals_def)

lemma vals_Cons [simp]: "h a = Some n \<Longrightarrow> vals h (a # as) = elem n # vals h as"
  by (simp add: vals_def)

lemma vals_Nil [simp]: "vals h [] = []"
  by (simp add: vals_def)

lemma vals_eq_Nil_iff [simp]: "vals h as = [] \<longleftrightarrow> as = []"
  by (simp add: vals_def)

lemma length_vals [simp]: "length (vals h as) = length as"
  by (simp add: vals_def)

lemma vals_snoc [simp]: "vals h (as @ [a]) = vals h as @ [elem (the (h a))]"
  by (simp add: vals_def)

lemma mem_ok_free [simp]: "mem_ok m \<Longrightarrow> mem_ok (m\<lparr>cells := (cells m)(a := None)\<rparr>)"
  by (auto simp: mem_ok_def)

lemma mem_ok_empty [simp]: "mem_ok empty_mem"
  by (simp add: mem_ok_def empty_mem_def)

text \<open>Writing a node's element leaves every chain in place.\<close>

lemma lseg_upd_elem [simp]:
  "h a = Some n \<Longrightarrow> lseg (h(a \<mapsto> n\<lparr>elem := v\<rparr>)) p as q = lseg h p as q"
  by (induction as arbitrary: p) (auto split: option.splits)

lemma mem_ok_upd_live [simp]:
  "mem_ok m \<Longrightarrow> cells m a = Some n \<Longrightarrow> mem_ok (m\<lparr>cells := (cells m)(a \<mapsto> v)\<rparr>)"
  by (auto simp: mem_ok_def)

lemma mem_ok_alloc [simp]:
  "mem_ok m \<Longrightarrow> mem_ok (m\<lparr>cells := (cells m)(a \<mapsto> v), brk := max (brk m) (Suc a)\<rparr>)"
  unfolding mem_ok_def by (auto simp: less_max_iff_disj)

lemma mem_ok_alloc_link [simp]:
  "mem_ok m \<Longrightarrow> cells m t = Some n \<Longrightarrow>
   mem_ok (m\<lparr>cells := (cells m)(a \<mapsto> v, t \<mapsto> w), brk := max (brk m) (Suc a)\<rparr>)"
  unfolding mem_ok_def by (auto simp: less_max_iff_disj)

lemma mem_ok_restrict [simp]: "mem_ok m \<Longrightarrow> mem_ok (m\<lparr>cells := cells m |` A\<rparr>)"
  by (auto simp: mem_ok_def dom_def restrict_map_def)

text \<open>Every forward link of a node on a null-terminated chain is null or designates a
  node of the same chain.\<close>

lemma lseg_next_in:
  "lseg h p as None \<Longrightarrow> a \<in> set as \<Longrightarrow> h a = Some n \<Longrightarrow> next n = None \<or> the (next n) \<in> set as"
proof (induction as arbitrary: p)
  case Nil
  then show ?case by simp
next
  case (Cons b bs)
  then obtain nb where nb: "h b = Some nb" and seg: "lseg h (next nb) bs None"
    by (auto split: option.splits)
  show ?case
  proof (cases "a = b")
    case True
    with Cons.prems(3) nb seg show ?thesis by (cases bs) (auto split: option.splits)
  next
    case False
    with Cons.prems(2) Cons.IH [OF seg _ Cons.prems(3)] show ?thesis by auto
  qed
qed

text \<open>The drop glue of a null link does nothing; that of a null-terminated chain frees
  exactly its nodes.\<close>

lemma drop_link_None [simp]: "drop_link None m = Some (Inr m)"
  by (simp add: drop_link.simps)

lemma drop_link_lseg:
  "lseg (cells m) p as None \<Longrightarrow> drop_link p m = Some (Inr (m\<lparr>cells := cells m |` (- set as)\<rparr>))"
proof (induction as arbitrary: p)
  case Nil
  then show ?case by simp
next
  case (Cons a as)
  then obtain n where p: "p = Some a" and n: "cells m a = Some n"
    and seg: "lseg (cells m) (next n) as None"
    by (auto split: option.splits)
  have "(cells m |` (- set as))(a := None) = cells m |` (- set (a # as))"
    by (simp add: fun_eq_iff restrict_map_def)
  with Cons.IH [OF seg] show ?case by (simp add: p n drop_link.simps [of "Some a"])
qed

text \<open>Every node of a chain is live and links to a node of the chain or to its end.\<close>

lemma lseg_next_closed:
  "lseg h p as q \<Longrightarrow> a \<in> set as \<Longrightarrow> \<exists>n. h a = Some n \<and> (next n = q \<or> next n \<in> Some ` set as)"
proof (induction as arbitrary: p)
  case Nil
  then show ?case by simp
next
  case (Cons b bs)
  then obtain nb where nb: "h b = Some nb" and seg: "lseg h (next nb) bs q"
    by (auto split: option.splits)
  show ?case
  proof (cases "a = b")
    case True
    with nb seg show ?thesis by (cases bs) auto
  next
    case False
    with Cons.prems(2) Cons.IH [OF seg] show ?thesis by auto
  qed
qed

text \<open>The drop glue of a link into a cycle never returns: proved by fixpoint induction,
  every approximation of \<open>drop_link\<close> is undefined on every node of the cycle; and a
  chain that runs into such a node does not return either.\<close>

lemma drop_link_cycle:
  assumes cyc: "lseg (cells m) (Some b) bs (Some b)" and ne: "bs \<noteq> []"
  shows "drop_link (Some b) m = None"
proof -
  have b: "b \<in> set bs" using cyc ne by (cases bs) auto
  have closed: "\<exists>n a'. cells m a = Some n \<and> next n = Some a' \<and> a' \<in> set bs" if "a \<in> set bs" for a
    using lseg_next_closed [OF cyc that] b by blast
  have "\<forall>a\<in>set bs. drop_link (Some a) m = None"
  proof (induction rule: drop_link.fixp_induct)
    case 1
    show ?case by (rule ccpo.admissibleI) (auto simp: fun_lub_def flat_lub_def)
  next
    case 2
    show ?case by simp
  next
    case (3 f)
    show ?case
    proof
      fix a assume "a \<in> set bs"
      with closed obtain n a' where "cells m a = Some n" "next n = Some a'" "a' \<in> set bs" by blast
      with 3 show "(case Some a of None \<Rightarrow> Some (Inr m)
          | Some a \<Rightarrow> (case load (cells m) a of Inl e \<Rightarrow> Some (Inl e)
             | Inr node \<Rightarrow> Option.bind (f (next node) m)
                 (\<lambda>r. case r of Inl e \<Rightarrow> Some (Inl e)
                       | Inr m' \<Rightarrow> Some (Inr (m'\<lparr>cells := (cells m')(a := None)\<rparr>))))) = None"
        by simp
    qed
  qed
  with b show ?thesis by blast
qed

lemma drop_link_into_cycle:
  "lseg (cells m) p as (Some b) \<Longrightarrow> drop_link (Some b) m = None \<Longrightarrow> drop_link p m = None"
proof (induction as arbitrary: p)
  case Nil
  then show ?case by simp
next
  case (Cons a as)
  then obtain n where "p = Some a" "cells m a = Some n" "lseg (cells m) (next n) as (Some b)"
    by (auto split: option.splits)
  with Cons.IH [of "next n"] Cons.prems(2) show ?case by (simp add: drop_link.simps [of "Some a"])
qed

text \<open>Assigning to the \<open>next\<close> field of a live node whose link is null only stores.\<close>

lemma assign_next_null:
  "cells m t = Some n \<Longrightarrow> next n = None \<Longrightarrow>
   assign_next t v m = Some (Inr (m\<lparr>cells := (cells m)(t \<mapsto> n\<lparr>next := v\<rparr>)\<rparr>))"
  by (simp add: assign_next_def)

lemma assign_next_dangling [simp]:
  "cells m t = None \<Longrightarrow> assign_next t v m = Some (Inl (Dangling t))"
  by (simp add: assign_next_def)

text \<open>A free address is on no chain of the heap; the allocator's address is free.\<close>

lemma lseg_free_notin:
  "lseg h p as q \<Longrightarrow> h a = None \<Longrightarrow> a \<notin> set as"
  using lseg_in_dom by fastforce

lemma alloc_fresh:
  "alloc_ok alloc \<Longrightarrow> mem_ok m \<Longrightarrow> cells m (alloc m) = None"
  by (simp add: alloc_ok_def)

text \<open>Both allocators meet the contract.\<close>

lemma alloc_ok_bump [simp]: "alloc_ok bump"
  by (auto simp: alloc_ok_def bump_def mem_ok_def)

lemma alloc_ok_first_fit [simp]: "alloc_ok first_fit"
  unfolding alloc_ok_def first_fit_def
  by (auto simp: mem_ok_def find_Some_iff find_None_iff split: option.splits)

lemma alloc_ok_prefer_at [simp]: "alloc_ok (prefer_at a)"
  by (auto simp: alloc_ok_def prefer_at_def mem_ok_def)

end
