(* ===== verification/Queue_Spec.thy ===== *)
theory Queue_Spec
  imports Main
begin

text \<open>
  The abstract contract of the queue of \<open>src/src/fifth.rs\<close> (spec sections 4.1 and 8):
  a queue is the list of its elements, oldest first; \<open>push\<close> appends at the end,
  \<open>pop\<close> removes and returns the front element or nothing, \<open>peek\<close> returns the front
  element without removing it; a traversal reads the whole list front to back, a loop
  over the mutable iterator maps a function over it, and draining it through the
  consuming iterator returns the whole list and empties it. The operations a client can
  issue form the datatype \<open>op\<close>, and \<open>arun\<close> runs a sequence of them, collecting
  what each returns.
\<close>

definition anew :: "'a list" where
  "anew = []"

definition apush :: "'a \<Rightarrow> 'a list \<Rightarrow> 'a list" where
  "apush x xs = xs @ [x]"

fun apop :: "'a list \<Rightarrow> 'a option \<times> 'a list" where
  "apop [] = (None, [])"
| "apop (x # xs) = (Some x, xs)"

fun apeek :: "'a list \<Rightarrow> 'a option" where
  "apeek [] = None"
| "apeek (x # xs) = Some x"

text \<open>Replacing the front element in place, as a caller does through \<open>peek_mut\<close>.\<close>

fun aset_front :: "'a \<Rightarrow> 'a list \<Rightarrow> 'a list" where
  "aset_front v [] = []"
| "aset_front v (x # xs) = v # xs"

datatype 'a op = Push 'a | Pop | Peek | SetFront 'a | Traverse | UpdateAll "'a \<Rightarrow> 'a" | Drain

datatype 'a out =
  Pushed | Popped "'a option" | Peeked "'a option" | Updated bool
| Traversed "'a list" | UpdatedAll | Drained "'a list"

fun astep :: "'a op \<Rightarrow> 'a list \<Rightarrow> 'a out \<times> 'a list" where
  "astep (Push x) xs = (Pushed, apush x xs)"
| "astep Pop xs = (let (r, ys) = apop xs in (Popped r, ys))"
| "astep Peek xs = (Peeked (apeek xs), xs)"
| "astep (SetFront v) xs = (Updated (xs \<noteq> []), aset_front v xs)"
| "astep Traverse xs = (Traversed xs, xs)"
| "astep (UpdateAll f) xs = (UpdatedAll, map f xs)"
| "astep Drain xs = (Drained xs, [])"

fun arun :: "'a op list \<Rightarrow> 'a list \<Rightarrow> 'a out list \<times> 'a list" where
  "arun [] xs = ([], xs)"
| "arun (c # cs) xs =
     (let (r, ys) = astep c xs; (rs, zs) = arun cs ys in (r # rs, zs))"

section \<open>Lemmas\<close>

lemma arun_append:
  "arun (os @ ps) xs =
     (let (rs, ys) = arun os xs; (qs, zs) = arun ps ys in (rs @ qs, zs))"
  by (induction os arbitrary: xs) (auto split: prod.splits)

lemma arun_pushes: "arun (map Push ys) xs = (replicate (length ys) Pushed, xs @ ys)"
  by (induction ys arbitrary: xs) (auto simp: apush_def)

lemma arun_pops:
  "arun (replicate (length xs) Pop) (xs @ ys) = (map (Popped \<circ> Some) xs, ys)"
  by (induction xs) auto

text \<open>FIFO order of the contract: pushing \<open>e1 \<dots> eN\<close> onto any queue and then popping as
  many times as the queue holds returns its old elements and then \<open>e1 \<dots> eN\<close>.\<close>

lemma arun_fifo:
  "arun (map Push ys @ replicate (length (xs @ ys)) Pop) xs =
     (replicate (length ys) Pushed @ map (Popped \<circ> Some) (xs @ ys), [])"
  using arun_pops [of "xs @ ys" "[]"] by (simp add: arun_append arun_pushes)

end
