(* ===== verification/Queue.thy ===== *)
theory Queue
  imports Memory Queue_Spec
begin

text \<open>
  The queue core of \<open>src/src/fifth.rs\<close>: the struct \<open>List<T>\<close> (an owning link to
  the first node and a raw pointer to the last one) and its methods \<open>new\<close>,
  \<open>push\<close>, \<open>pop\<close>, \<open>peek\<close> and \<open>peek_mut\<close>. Each method takes the queue and the
  heap (and \<open>push\<close> the global allocator, of which its theorems assume only the contract
  \<open>alloc_ok\<close>) and returns the new ones, or \<open>Dangling\<close> where the source would dereference a
  pointer to no live node. The representation invariant \<open>queue_repr\<close> states the
  spec's I1--I3; the lemmas show that every method keeps it, never reaches undefined
  behaviour under it, and implements the list contract of \<open>Queue_Spec\<close>.
\<close>

section \<open>State and operations\<close>

text \<open>\<open>tail = None\<close> is the null raw pointer \<open>ptr::null_mut()\<close>.\<close>

record 'a List =
  head :: link
  tail :: link

definition new :: "'a List" where
  "new = \<lparr>head = None, tail = None\<rparr>"

text \<open>
  \<open>push\<close>: allocate the new node at the address the allocator \<open>alloc\<close> chooses, link it behind the node the raw tail pointer
  designates (a write through that pointer) or make it the head when the tail pointer is
  null, then point the tail at it. The write \<open>(*self.tail).next = Some(new_tail)\<close> is
  the assignment \<open>assign_next\<close>, which also runs the drop glue of the link it
  overwrites; likewise the assignment \<open>self.head = Some(new_tail)\<close> first drops the old
  head link (\<open>drop_link\<close>). \<open>push\<close> is \<open>None\<close> when such a drop does not end.
\<close>

definition push :: "'a allocator \<Rightarrow> 'a \<Rightarrow> 'a List \<Rightarrow> 'a mem \<Rightarrow> (ub + 'a List \<times> 'a mem) option" where
  "push alloc x l m =
     (let (new_tail, m) = box_new alloc \<lparr>elem = x, next = None\<rparr> m;
          linked =
            (case tail l of
               Some t \<Rightarrow>
                 (case assign_next t (Some new_tail) m of
                    None \<Rightarrow> None
                  | Some (Inl e) \<Rightarrow> Some (Inl e)
                  | Some (Inr m) \<Rightarrow> Some (Inr (l, m)))
             | None \<Rightarrow>
                 (case drop_link (head l) m of
                    None \<Rightarrow> None
                  | Some (Inl e) \<Rightarrow> Some (Inl e)
                  | Some (Inr m) \<Rightarrow> Some (Inr (l\<lparr>head := Some new_tail\<rparr>, m))))
      in case linked of
           None \<Rightarrow> None
         | Some (Inl e) \<Rightarrow> Some (Inl e)
         | Some (Inr (l, m)) \<Rightarrow> Some (Inr (l\<lparr>tail := Some new_tail\<rparr>, m)))"

text \<open>
  \<open>pop\<close>: take the head box, move its node out (freeing the box), make its \<open>next\<close>
  the new head, reset the tail pointer to null when the queue became empty, and return
  the element.
\<close>

definition pop :: "'a List \<Rightarrow> 'a mem \<Rightarrow> ub + 'a option \<times> 'a List \<times> 'a mem" where
  "pop l m =
     (case head l of
        None \<Rightarrow> Inr (None, l, m)
      | Some a \<Rightarrow>
          (case load (cells m) a of
             Inl e \<Rightarrow> Inl e
           | Inr node \<Rightarrow>
               (let l = l\<lparr>head := next node\<rparr>;
                    l = (if head l = None then l\<lparr>tail := None\<rparr> else l)
                in Inr (Some (elem node), l, m\<lparr>cells := (cells m)(a := None)\<rparr>))))"

text \<open>\<open>peek\<close>: the element of the head node, read through the head box.\<close>

definition peek :: "'a List \<Rightarrow> 'a mem \<Rightarrow> ub + 'a option" where
  "peek l m =
     (case head l of
        None \<Rightarrow> Inr None
      | Some a \<Rightarrow> (case load (cells m) a of Inl e \<Rightarrow> Inl e | Inr node \<Rightarrow> Inr (Some (elem node))))"

text \<open>
  \<open>peek_mut\<close> returns a mutable reference to the head element: a place, modelled by
  the address of the node that holds it. \<open>write_elem\<close> is the caller's assignment
  \<open>*r = v\<close> through such a reference.
\<close>

definition peek_mut :: "'a List \<Rightarrow> addr option" where
  "peek_mut l = head l"

definition write_elem :: "addr \<Rightarrow> 'a \<Rightarrow> 'a mem \<Rightarrow> ub + 'a mem" where
  "write_elem a v m =
     (case load (cells m) a of
        Inl e \<Rightarrow> Inl e
      | Inr node \<Rightarrow> Inr (m\<lparr>cells := (cells m)(a \<mapsto> node\<lparr>elem := v\<rparr>)\<rparr>))"

text \<open>A two-node queue holding \<open>10, 20\<close> at addresses \<open>0, 1\<close>: the concrete input of
  the witnesses below.\<close>

abbreviation ex_mem :: "nat mem" where
  "ex_mem \<equiv> \<lparr>cells = Map.empty(0 \<mapsto> \<lparr>elem = 10, next = Some 1\<rparr>, 1 \<mapsto> \<lparr>elem = 20, next = None\<rparr>),
              brk = 2\<rparr>"

abbreviation ex_list :: "nat List" where
  "ex_list \<equiv> \<lparr>head = Some 0, tail = Some 1\<rparr>"

text \<open>Two one-node queues, holding \<open>10\<close> and \<open>20\<close>, side by side in one heap.\<close>

abbreviation two_mem :: "nat mem" where
  "two_mem \<equiv> \<lparr>cells = Map.empty(0 \<mapsto> \<lparr>elem = 10, next = None\<rparr>, 1 \<mapsto> \<lparr>elem = 20, next = None\<rparr>),
              brk = 2\<rparr>"

section \<open>Representation invariant\<close>

text \<open>
  \<open>queue_repr h l as\<close>: the head link starts a chain through the live nodes \<open>as\<close> that
  ends in a null link (I3: finite, hence acyclic, each node owned once), and the tail
  pointer is null exactly when the chain is empty and otherwise designates its last
  node (I1, I2). The queue's contents are \<open>vals h as\<close>.
\<close>

definition queue_repr :: "'a heap \<Rightarrow> 'a List \<Rightarrow> addr list \<Rightarrow> bool" where
  "queue_repr h l as \<longleftrightarrow>
     lseg h (head l) as None \<and> tail l = (if as = [] then None else Some (last as))"

section \<open>Lemmas\<close>

declare queue_repr_def [repr_simps]

text \<open>\<open>pop\<close> on a new queue returns nothing and changes nothing.\<close>

lemma pop_new: "pop new m = Inr (None, new, m)"
  by (simp add: pop_def new_def)

lemma queue_repr_new [simp]: "queue_repr h new as \<longleftrightarrow> as = []"
  by (auto simp: repr_simps new_def)

lemma ex_repr: "queue_repr (cells ex_mem) ex_list [0, 1] \<and> mem_ok ex_mem"
  by (simp add: repr_simps mem_ok_def)

lemma queue_repr_Nil [simp]:
  "queue_repr h l [] \<longleftrightarrow> head l = None \<and> tail l = None"
  by (simp add: repr_simps)

lemma queue_repr_distinct: "queue_repr h l as \<Longrightarrow> distinct as"
  by (auto simp: repr_simps dest: lseg_distinct)

lemma queue_repr_unique: "queue_repr h l as \<Longrightarrow> queue_repr h l bs \<Longrightarrow> as = bs"
  by (auto simp: repr_simps intro: lseg_unique)

lemma queue_repr_in_dom: "queue_repr h l as \<Longrightarrow> set as \<subseteq> dom h"
  by (auto simp: repr_simps dest: lseg_in_dom)

lemma queue_repr_upd_notin [simp]:
  "x \<notin> set bs \<Longrightarrow> queue_repr (h(x := v)) k bs = queue_repr h k bs"
  by (simp add: repr_simps)

text \<open>The effect of \<open>push\<close> on an empty and on a non-empty queue.\<close>

lemma push_empty:
  "tail l = None \<Longrightarrow> head l = None \<Longrightarrow>
   push alloc x l m =
     Some (Inr (l\<lparr>head := Some (alloc m), tail := Some (alloc m)\<rparr>,
                m\<lparr>cells := (cells m)(alloc m \<mapsto> \<lparr>elem = x, next = None\<rparr>),
                  brk := max (brk m) (Suc (alloc m))\<rparr>))"
  by (simp add: push_def box_new_def Let_def)

lemma push_nonempty:
  "tail l = Some t \<Longrightarrow> t \<noteq> alloc m \<Longrightarrow> cells m t = Some n \<Longrightarrow> next n = None \<Longrightarrow>
   push alloc x l m =
     Some (Inr (l\<lparr>tail := Some (alloc m)\<rparr>,
                m\<lparr>cells := (cells m)(alloc m \<mapsto> \<lparr>elem = x, next = None\<rparr>,
                                     t \<mapsto> n\<lparr>next := Some (alloc m)\<rparr>),
                  brk := max (brk m) (Suc (alloc m))\<rparr>))"
  by (simp add: push_def box_new_def Let_def assign_next_null)

text \<open>The chain grows by the new node: the write through the tail pointer links it.\<close>

lemma lseg_push_link:
  assumes "lseg h p as None" and "as \<noteq> []" and "h a = None" and "h (last as) = Some n"
  shows "lseg (h(a \<mapsto> N, last as \<mapsto> n\<lparr>next := Some a\<rparr>)) p (as @ [a]) (next N)"
proof -
  let ?t = "last as" and ?bs = "butlast as"
  have as: "as = ?bs @ [?t]" using assms(2) by simp
  have d: "?t \<notin> set ?bs" using assms(1,2) by (auto dest: lseg_distinct distinct_butlast_last)
  have "a \<notin> set as" using assms(1,3) lseg_in_dom by fastforce
  then have a: "a \<notin> set ?bs" "a \<noteq> ?t" using as by (metis in_set_butlastD, metis last_in_set assms(2))
  from assms(1) as obtain q where seg: "lseg h p ?bs q" and "lseg h q [?t] None"
    by (metis lseg_append)
  then have q: "q = Some ?t" by simp
  have "lseg (h(a \<mapsto> N, ?t \<mapsto> n\<lparr>next := Some a\<rparr>)) p ?bs (Some ?t)"
    using seg q a d by simp
  moreover have "lseg (h(a \<mapsto> N, ?t \<mapsto> n\<lparr>next := Some a\<rparr>)) (Some ?t) [?t, a] (next N)"
    using a by simp
  ultimately show ?thesis
    by (subst as) (auto simp: lseg_append)
qed

text \<open>The simulation lemmas: each method, from a queue that represents the address list
  \<open>as\<close>, returns without undefined behaviour what the list contract returns, and the
  result represents the contract's new list.\<close>

lemma lseg_pop_tail:
  assumes "h a = Some n" and "lseg h (next n) as None"
  shows "lseg (h(a := None)) (next n) as None"
  using assms lseg_hd_notin by fastforce

lemma push_sim:
  assumes repr: "queue_repr (cells m) l as" and ok: "mem_ok m" and al: "alloc_ok alloc"
  shows "\<exists>l' m'. push alloc x l m = Some (Inr (l', m')) \<and> queue_repr (cells m') l' (as @ [alloc m]) \<and>
           vals (cells m') (as @ [alloc m]) = apush x (vals (cells m) as) \<and> mem_ok m'"
proof (cases "as = []")
  case True
  with repr have "tail l = None" "head l = None" by simp_all
  with True ok show ?thesis by (simp add: push_empty repr_simps apush_def)
next
  case False
  let ?t = "last as" and ?h = "cells m" and ?N = "\<lparr>elem = x, next = None\<rparr>"
  from repr have seg: "lseg ?h (head l) as None" and tl: "tail l = Some ?t"
    using False by (simp_all add: repr_simps)
  then obtain n where n: "?h ?t = Some n" "next n = None"
    using False lseg_last by blast
  have fresh: "?h (alloc m) = None" using al ok by (rule alloc_fresh)
  have notin: "alloc m \<notin> set as" using seg fresh by (rule lseg_free_notin)
  then have ne: "?t \<noteq> alloc m" using False last_in_set by metis
  have "lseg (?h(alloc m \<mapsto> ?N, ?t \<mapsto> n\<lparr>next := Some (alloc m)\<rparr>)) (head l) (as @ [alloc m]) None"
    using lseg_push_link [OF seg False fresh n(1), of ?N] by simp
  with ne n notin ok show ?thesis
    by (simp add: push_nonempty [where alloc = alloc and m = m, OF tl ne n(1) n(2)] repr_simps apush_def)
qed

lemma pop_sim:
  assumes repr: "queue_repr (cells m) l as" and ok: "mem_ok m"
  shows "\<exists>r l' m'. pop l m = Inr (r, l', m') \<and> queue_repr (cells m') l' (tl as) \<and>
           (r, vals (cells m') (tl as)) = apop (vals (cells m) as) \<and> mem_ok m' \<and>
           cells m' = cells m |` (- set (take 1 as))"
proof (cases as)
  case Nil
  with repr ok show ?thesis by (simp add: pop_def)
next
  case (Cons a as')
  with repr obtain n where hd: "head l = Some a" and n: "cells m a = Some n"
    and seg: "lseg (cells m) (next n) as' None"
    and tl: "tail l = Some (last (a # as'))"
    by (auto simp: repr_simps split: option.splits)
  have notin: "a \<notin> set as'" using n seg by (rule lseg_hd_notin)
  have seg': "lseg ((cells m)(a := None)) (next n) as' None"
    using n seg by (rule lseg_pop_tail)
  have "next n = None \<longleftrightarrow> as' = []" using seg by (cases as') auto
  then show ?thesis
    using Cons hd n seg' notin tl ok
    by (auto simp: pop_def repr_simps restrict_map_def)
qed

lemma peek_sim:
  "queue_repr (cells m) l as \<Longrightarrow> peek l m = Inr (apeek (vals (cells m) as))"
  by (cases as) (auto simp: repr_simps peek_def split: option.splits)

lemma peek_mut_sim:
  assumes repr: "queue_repr (cells m) l as" and ne: "as \<noteq> []"
  shows "\<exists>m'. peek_mut l = Some (hd as) \<and> write_elem (hd as) v m = Inr m' \<and>
           queue_repr (cells m') l as \<and> vals (cells m') as = v # tl (vals (cells m) as)"
proof -
  from ne obtain a as' where as: "as = a # as'" by (cases as) auto
  with repr obtain n where hd: "head l = Some a" and n: "cells m a = Some n"
    and seg: "lseg (cells m) (next n) as' None"
    by (auto simp: repr_simps split: option.splits)
  have "a \<notin> set as'" using n seg by (rule lseg_hd_notin)
  with as hd n seg repr show ?thesis
    by (auto simp: peek_mut_def write_elem_def repr_simps)
qed

text \<open>The exact effect of \<open>pop\<close> on a non-empty well-formed queue, for the
  consuming iterator.\<close>

lemma pop_Cons:
  assumes "queue_repr (cells m) l (a # as)"
  shows "\<exists>n l'. cells m a = Some n \<and> pop l m = Inr (Some (elem n), l', m\<lparr>cells := (cells m)(a := None)\<rparr>) \<and>
           queue_repr ((cells m)(a := None)) l' as"
proof -
  from assms obtain n where hd: "head l = Some a" and n: "cells m a = Some n"
    and seg: "lseg (cells m) (next n) as None"
    and tl: "tail l = Some (last (a # as))"
    by (auto simp: repr_simps split: option.splits)
  have seg': "lseg ((cells m)(a := None)) (next n) as None"
    using n seg by (rule lseg_pop_tail)
  have "next n = None \<longleftrightarrow> as = []" using seg by (cases as) auto
  then show ?thesis using hd n seg' tl by (auto simp: pop_def repr_simps)
qed

text \<open>The allocator never hands out the node the tail pointer designates.\<close>

lemma push_tail_fresh:
  assumes "queue_repr (cells m) l as" and "mem_ok m" and "alloc_ok alloc" and "as \<noteq> []"
  shows "tail l = Some (last as) \<and> (\<exists>n. cells m (last as) = Some n \<and> next n = None) \<and>
         last as \<noteq> alloc m"
proof -
  have seg: "lseg (cells m) (head l) as None" using assms(1) by (simp add: repr_simps)
  have "cells m (alloc m) = None" using assms(2,3) by (simp add: alloc_fresh)
  then have "last as \<noteq> alloc m" using lseg_free_notin [OF seg] assms(4) last_in_set by metis
  then show ?thesis using assms(1,4) lseg_last [OF seg] by (auto simp: repr_simps)
qed

text \<open>What each method allocates and frees: \<open>push\<close> allocates one cell, \<open>pop\<close>
  frees the head cell, a write through \<open>peek_mut\<close> neither.\<close>

lemma push_dom:
  assumes "queue_repr (cells m) l as" and "mem_ok m" and "alloc_ok alloc"
    and "push alloc x l m = Some (Inr (l', m'))"
  shows "dom (cells m') = insert (alloc m) (dom (cells m))"
proof (cases "as = []")
  case True
  with assms show ?thesis by (auto simp: push_empty)
next
  case False
  then obtain n where t: "tail l = Some (last as)" and n: "cells m (last as) = Some n"
    and nn: "next n = None" and ne: "last as \<noteq> alloc m"
    using push_tail_fresh [OF assms(1-3)] by blast
  with assms(4) show ?thesis by (auto simp: push_nonempty [where alloc = alloc and m = m, OF t ne n nn] split: if_splits)
qed

lemma write_elem_dom:
  "write_elem a v m = Inr m' \<Longrightarrow> dom (cells m') = dom (cells m) \<and> mem_ok m' = mem_ok m"
  by (auto simp: write_elem_def load_def mem_ok_def split: option.splits if_splits)

lemma write_elem_other:
  "write_elem a v m = Inr m' \<Longrightarrow> b \<noteq> a \<Longrightarrow> cells m' b = cells m b"
  by (auto simp: write_elem_def load_def split: option.splits)

text \<open>The cells \<open>push\<close> changes: the new node, and the old last node if there is one.\<close>

lemma push_changed:
  assumes "queue_repr (cells m) l as" and "mem_ok m" and "alloc_ok alloc"
    and "push alloc x l m = Some (Inr (l', m'))"
  shows "{a. cells m' a \<noteq> cells m a} \<subseteq> insert (alloc m) (if as = [] then {} else {last as})"
proof (cases "as = []")
  case True
  with assms show ?thesis by (auto simp: push_empty split: if_splits)
next
  case False
  then obtain n where t: "tail l = Some (last as)" and n: "cells m (last as) = Some n"
    and nn: "next n = None" and ne: "last as \<noteq> alloc m"
    using push_tail_fresh [OF assms(1-3)] by blast
  with assms(4) False show ?thesis
    by (auto simp: push_nonempty [where alloc = alloc and m = m, OF t ne n nn] split: if_splits)
qed

text \<open>Frame lemmas: what \<open>push\<close> and \<open>pop\<close> write lies inside their own chain or
  at the fresh address, so a queue over a disjoint chain is untouched.\<close>

lemma push_frame:
  assumes repr: "queue_repr (cells m) l as" and other: "queue_repr (cells m) k bs"
    and disj: "set as \<inter> set bs = {}" and ok: "mem_ok m" and al: "alloc_ok alloc"
    and p: "push alloc x l m = Some (Inr (l', m'))"
  shows "queue_repr (cells m') k bs \<and> vals (cells m') bs = vals (cells m) bs"
proof (cases "as = []")
  have "cells m (alloc m) = None" using al ok by (rule alloc_fresh)
  then have fresh: "alloc m \<notin> set bs" using other by (auto simp: repr_simps dest: lseg_free_notin)
  {
    case True
    with repr p fresh other show ?thesis by (auto simp: push_empty)
  next
    case False
    then obtain n where t: "tail l = Some (last as)" and n: "cells m (last as) = Some n"
      and nn: "next n = None" and ne: "last as \<noteq> alloc m"
      using push_tail_fresh [OF repr ok al] by blast
    have "last as \<notin> set bs" using disj False last_in_set by blast
    then show ?thesis using p fresh other by (auto simp: push_nonempty [where alloc = alloc and m = m, OF t ne n nn])
  }
qed

lemma pop_frame:
  assumes repr: "queue_repr (cells m) l as" and other: "queue_repr (cells m) k bs"
    and disj: "set as \<inter> set bs = {}" and ok: "mem_ok m"
    and p: "pop l m = Inr (r, l', m')"
  shows "queue_repr (cells m') k bs \<and> vals (cells m') bs = vals (cells m) bs"
proof -
  have "cells m' = cells m |` (- set (take 1 as))"
    using pop_sim [OF repr ok] p by auto
  moreover have "set (take 1 as) \<inter> set bs = {}" using disj set_take_subset [of 1 as] by blast
  ultimately show ?thesis using other by (cases as) (auto simp: restrict_map_compl_single)
qed

section \<open>Properties of the queue core\<close>

text \<open>C2: \<open>push\<close> implements the contract's \<open>apush\<close>: from a well-formed queue, with
  any allocator that hands out a free address (a reused one included), it never reaches
  undefined behaviour, the result is well-formed, and its contents are the
  old contents followed by the pushed element.\<close>

theorem push_refines:
  assumes "queue_repr (cells m) l as" and "mem_ok m" and "alloc_ok alloc"
  shows "\<exists>l' m' as'. push alloc x l m = Some (Inr (l', m')) \<and> queue_repr (cells m') l' as' \<and>
           mem_ok m' \<and> vals (cells m') as' = apush x (vals (cells m) as)"
  using push_sim [OF assms] by blast

text \<open>C3: \<open>pop\<close> implements the contract's \<open>apop\<close>: it returns the front element
  (nothing on an empty queue), the rest of the queue is well-formed (the tail pointer is
  reset to null when the last node goes, I1) and holds the remaining elements, and the
  popped node's cell, and only it, is freed.\<close>

theorem pop_refines:
  assumes "queue_repr (cells m) l as" and "mem_ok m"
  shows "\<exists>r l' m' as'. pop l m = Inr (r, l', m') \<and> queue_repr (cells m') l' as' \<and>
           (r, vals (cells m') as') = apop (vals (cells m) as) \<and>
           cells m' = cells m |` (- set (take 1 as))"
  using pop_sim [OF assms] by blast

text \<open>C4: \<open>peek\<close> returns the contract's front element without undefined behaviour.\<close>

theorem peek_refines:
  "queue_repr (cells m) l as \<Longrightarrow> peek l m = Inr (apeek (vals (cells m) as))"
  by (rule peek_sim)

text \<open>C6 (spec P5): \<open>peek\<close> is not destructive: the element it reports is the one the
  following \<open>pop\<close> returns.\<close>

theorem peek_then_pop:
  assumes "queue_repr (cells m) l as" and "mem_ok m"
  shows "\<exists>r l' m'. peek l m = Inr r \<and> pop l m = Inr (r, l', m')"
proof -
  obtain r l' m' as' where "pop l m = Inr (r, l', m')"
    and "(r, vals (cells m') as') = apop (vals (cells m) as)"
    using pop_sim [OF assms] by blast
  moreover have "fst (apop xs) = apeek xs" for xs :: "'a list" by (cases xs) auto
  ultimately show ?thesis using peek_sim [OF assms(1)] by (metis fst_conv)
qed

text \<open>C7 (spec 4.1, \<open>peek_mut\<close>): the mutable reference \<open>peek_mut\<close> returns designates
  the head element; assigning through it replaces that element in place and leaves the
  chain's structure (and so every invariant) unchanged.\<close>

theorem peek_mut_write:
  assumes "queue_repr (cells m) l as" and "as \<noteq> []"
  shows "\<exists>a m'. peek_mut l = Some a \<and> write_elem a v m = Inr m' \<and>
           queue_repr (cells m') l as \<and> vals (cells m') as = v # tl (vals (cells m) as)"
  using peek_mut_sim [OF assms] by blast

text \<open>C17 (separation, spec I3): the heap may hold other queues. \<open>push\<close> and \<open>pop\<close>
  on one queue write only the new cell, its own tail node and its own head cell, so any
  other queue whose chain is disjoint from it stays well-formed with the same contents.\<close>

theorem ops_preserve_other_queue:
  assumes "queue_repr (cells m) l as" and "queue_repr (cells m) k bs"
    and "set as \<inter> set bs = {}" and "mem_ok m" and "alloc_ok alloc"
  shows "(\<forall>l' m'. push alloc x l m = Some (Inr (l', m')) \<longrightarrow>
             queue_repr (cells m') k bs \<and> vals (cells m') bs = vals (cells m) bs) \<and>
         (\<forall>r l' m'. pop l m = Inr (r, l', m') \<longrightarrow>
             queue_repr (cells m') k bs \<and> vals (cells m') bs = vals (cells m) bs)"
  using push_frame [OF assms] pop_frame [OF assms(1-4)] by blast

text \<open>C22 (spec 4.1, constant-time push, locality): once the queue has a tail node, \<open>push\<close>
  reads nothing but that node and writes nothing but it and the new node. For a tail node
  \<open>n\<close> at \<open>t\<close> whose link is null and an allocator's choice \<open>a\<close>, there is one fixed
  update \<open>c\<close> of the two cells \<open>t\<close> and \<open>a\<close> such that \<open>push\<close> on every queue with that
  tail pointer, over every heap holding \<open>n\<close> at \<open>t\<close>, returns that heap overridden by
  \<open>c\<close>, whatever the head link and every other cell hold: the cost does not depend on
  the length, and \<open>push\<close> never walks the chain from the head.\<close>

theorem push_reads_only_tail:
  assumes "next n = None" and "t \<noteq> a"
  shows "\<exists>c. dom c = {t, a} \<and>
           (\<forall>l m. tail l = Some t \<longrightarrow> cells m t = Some n \<longrightarrow> alloc m = a \<longrightarrow>
              push alloc x l m =
                Some (Inr (l\<lparr>tail := Some a\<rparr>,
                           m\<lparr>cells := cells m ++ c, brk := max (brk m) (Suc a)\<rparr>)))"
proof (intro exI conjI allI impI)
  let ?c = "Map.empty(a \<mapsto> \<lparr>elem = x, next = None\<rparr>, t \<mapsto> n\<lparr>next := Some a\<rparr>)"
  show "dom ?c = {t, a}" by auto
  fix l :: "'a List" and m :: "'a mem"
  assume "tail l = Some t" and "cells m t = Some n" and "alloc m = a"
  with assms show "push alloc x l m =
      Some (Inr (l\<lparr>tail := Some a\<rparr>, m\<lparr>cells := cells m ++ ?c, brk := max (brk m) (Suc a)\<rparr>))"
    using push_nonempty [where l = l and t = t and m = m and alloc = alloc and n = n and x = x] by simp
qed

text \<open>C23 (round trip): pushing onto a new queue and popping returns the pushed element,
  gives back a new queue, and restores every heap cell: the node allocated by \<open>push\<close>
  is the one \<open>pop\<close> frees.\<close>

theorem push_pop_roundtrip:
  assumes "mem_ok m" and "alloc_ok alloc"
  shows "\<exists>l1 m1. push alloc x new m = Some (Inr (l1, m1)) \<and>
           pop l1 m1 = Inr (Some x, new, m1\<lparr>cells := cells m\<rparr>)"
proof -
  have "cells m (alloc m) = None" using assms by (simp add: alloc_fresh)
  then have "(cells m)(alloc m \<mapsto> \<lparr>elem = x, next = None\<rparr>, alloc m := None) = cells m"
    by (auto simp: fun_eq_iff)
  then show ?thesis by (simp add: push_empty new_def pop_def)
qed

text \<open>C20 (error path of \<open>push\<close>): if the tail pointer dangles, designating a node
  that was allocated and has been freed, \<open>push\<close> reaches the undefined-behaviour branch
  of its write \<open>(*self.tail).next = ...\<close>, unless the allocator has just handed the
  freed address out again for the new node. This is the state a \<open>pop\<close> without the
  tail reset would leave behind.\<close>

theorem push_dangling_tail:
  "tail l = Some t \<Longrightarrow> cells m t = None \<Longrightarrow> alloc m \<noteq> t \<Longrightarrow>
   push alloc x l m = Some (Inl (Dangling t))"
  by (simp add: push_def box_new_def Let_def)

text \<open>C31 (the drop in \<open>push\<close>'s write): the assignment
  \<open>(*self.tail).next = Some(new_tail)\<close> drops the link it overwrites. On a corrupted
  queue whose tail node still links to a chain of nodes \<open>bs\<close>, \<open>push\<close> frees that
  whole chain before it stores the new link; on a well-formed queue the link is null and
  nothing is freed (C32).\<close>

theorem push_drops_overwritten_link:
  assumes "tail l = Some t" and "cells m t = Some n" and "lseg (cells m) (next n) bs None"
    and "t \<notin> set bs" and "mem_ok m" and "alloc_ok alloc"
  shows "push alloc x l m =
           Some (Inr (l\<lparr>tail := Some (alloc m)\<rparr>,
                      m\<lparr>cells := (cells m |` (- set bs))(alloc m \<mapsto> \<lparr>elem = x, next = None\<rparr>,
                                                          t \<mapsto> n\<lparr>next := Some (alloc m)\<rparr>),
                        brk := max (brk m) (Suc (alloc m))\<rparr>))"
proof -
  let ?a = "alloc m" and ?N = "\<lparr>elem = x, next = None\<rparr>"
  let ?m1 = "m\<lparr>cells := (cells m)(?a \<mapsto> ?N), brk := max (brk m) (Suc ?a)\<rparr>"
  have fresh: "cells m ?a = None" using assms(6,5) by (rule alloc_fresh)
  then have ta: "t \<noteq> ?a" using assms(2) by auto
  have notin: "?a \<notin> set bs" using assms(3) fresh by (rule lseg_free_notin)
  then have "lseg (cells ?m1) (next n) bs None" using assms(3) by simp
  then have d: "drop_link (next n) ?m1 = Some (Inr (?m1\<lparr>cells := cells ?m1 |` (- set bs)\<rparr>))"
    by (rule drop_link_lseg)
  have c: "cells ?m1 |` (- set bs) = (cells m |` (- set bs))(?a \<mapsto> ?N)"
    using notin by (auto simp: restrict_map_def fun_eq_iff)
  show ?thesis using assms(1,2,4) ta d c by (simp add: push_def box_new_def Let_def assign_next_def)
qed

text \<open>C33 (non-termination of \<open>push\<close>): if the tail node of a corrupted queue links,
  directly or after any number of nodes, into a cycle of any length (the tail node itself
  may lie on it), the drop glue run by \<open>push\<close>'s write recurses without end (on the
  machine, a stack overflow): \<open>push\<close> does not return.\<close>

theorem push_cyclic_tail_diverges:
  assumes "tail l = Some t" and "cells m t = Some n"
    and "lseg (cells m) (next n) as (Some b)" and "lseg (cells m) (Some b) bs (Some b)" and "bs \<noteq> []"
    and "mem_ok m" and "alloc_ok alloc"
  shows "push alloc x l m = None"
proof -
  let ?a = "alloc m" and ?N = "\<lparr>elem = x, next = None\<rparr>"
  let ?m1 = "m\<lparr>cells := (cells m)(?a \<mapsto> ?N), brk := max (brk m) (Suc ?a)\<rparr>"
  have fresh: "cells m ?a = None" using assms(7,6) by (rule alloc_fresh)
  then have ta: "t \<noteq> ?a" using assms(2) by auto
  have "?a \<notin> set as" "?a \<notin> set bs"
    using lseg_free_notin [OF assms(3) fresh] lseg_free_notin [OF assms(4) fresh] by simp_all
  with assms(3,4) have "lseg (cells ?m1) (next n) as (Some b)" "lseg (cells ?m1) (Some b) bs (Some b)"
    by simp_all
  then have "drop_link (next n) ?m1 = None"
    using drop_link_cycle assms(5) by (blast intro: drop_link_into_cycle)
  then show ?thesis using assms(1,2) ta by (simp add: push_def box_new_def Let_def assign_next_def)
qed

text \<open>C21 (error paths of \<open>pop\<close> and \<open>peek\<close>): if the head link designates no live node,
  both reach the undefined-behaviour branch of their dereference of the head box.\<close>

theorem pop_peek_dangling_head:
  "head l = Some a \<Longrightarrow> cells m a = None \<Longrightarrow>
   pop l m = Inl (Dangling a) \<and> peek l m = Inl (Dangling a)"
  by (simp add: pop_def peek_def)

section \<open>Witnesses\<close>

theorem push_refines_witness:
  "queue_repr (cells ex_mem) ex_list [0, 1] \<and> mem_ok ex_mem \<and>
   (\<exists>l' m' as'. push first_fit 30 ex_list ex_mem = Some (Inr (l', m')) \<and> queue_repr (cells m') l' as' \<and>
      mem_ok m' \<and> vals (cells m') as' = [10, 20, 30])"
  using ex_repr push_refines [of ex_mem ex_list "[0, 1]" first_fit 30] by (simp add: apush_def)

theorem pop_refines_witness:
  "queue_repr (cells ex_mem) ex_list [0, 1] \<and> mem_ok ex_mem \<and>
   (\<exists>r l' m' as'. pop ex_list ex_mem = Inr (r, l', m') \<and> queue_repr (cells m') l' as' \<and>
      (r, vals (cells m') as') = (Some 10, [20]) \<and> cells m' = cells ex_mem |` (- {0}))"
  using ex_repr pop_refines [of ex_mem ex_list "[0, 1]"] by simp

theorem peek_refines_witness:
  "queue_repr (cells ex_mem) ex_list [0, 1] \<and> peek ex_list ex_mem = Inr (Some 10)"
  using ex_repr peek_refines [of ex_mem ex_list "[0, 1]"] by simp

theorem peek_then_pop_witness:
  "queue_repr (cells ex_mem) ex_list [0, 1] \<and> mem_ok ex_mem \<and>
   (\<exists>r l' m'. peek ex_list ex_mem = Inr r \<and> pop ex_list ex_mem = Inr (r, l', m'))"
  using ex_repr peek_then_pop [of ex_mem ex_list "[0, 1]"] by simp

theorem peek_mut_write_witness:
  "queue_repr (cells ex_mem) ex_list [0, 1] \<and>
   (\<exists>a m'. peek_mut ex_list = Some a \<and> write_elem a 7 ex_mem = Inr m' \<and>
      queue_repr (cells m') ex_list [0, 1] \<and> vals (cells m') [0, 1] = [7, 20])"
  using ex_repr peek_mut_write [of ex_mem ex_list "[0, 1]" 7] by simp

theorem ops_preserve_other_queue_witness:
  "queue_repr (cells two_mem) \<lparr>head = Some 0, tail = Some 0\<rparr> [0] \<and>
   queue_repr (cells two_mem) \<lparr>head = Some 1, tail = Some 1\<rparr> [1] \<and>
   push bump 5 \<lparr>head = Some 0, tail = Some 0\<rparr> two_mem =
     Some (Inr (\<lparr>head = Some 0, tail = Some 2\<rparr>,
          \<lparr>cells = (cells two_mem)(2 \<mapsto> \<lparr>elem = 5, next = None\<rparr>, 0 \<mapsto> \<lparr>elem = 10, next = Some 2\<rparr>),
           brk = 3\<rparr>)) \<and>
   queue_repr ((cells two_mem)(2 \<mapsto> \<lparr>elem = 5, next = None\<rparr>, 0 \<mapsto> \<lparr>elem = 10, next = Some 2\<rparr>))
     \<lparr>head = Some 1, tail = Some 1\<rparr> [1]"
proof -
  have h: "queue_repr (cells two_mem) \<lparr>head = Some 0, tail = Some 0\<rparr> [0]"
    "queue_repr (cells two_mem) \<lparr>head = Some 1, tail = Some 1\<rparr> [1]"
    "set [0] \<inter> set [1 :: nat] = {}" "mem_ok two_mem"
    by (simp_all add: repr_simps mem_ok_def)
  have p: "push bump 5 \<lparr>head = Some 0, tail = Some 0\<rparr> two_mem =
     Some (Inr (\<lparr>head = Some 0, tail = Some 2\<rparr>,
          \<lparr>cells = (cells two_mem)(2 \<mapsto> \<lparr>elem = 5, next = None\<rparr>, 0 \<mapsto> \<lparr>elem = 10, next = Some 2\<rparr>),
           brk = 3\<rparr>))"
    by (simp add: push_def box_new_def Let_def bump_def assign_next_def)
  show ?thesis using h p ops_preserve_other_queue [OF h alloc_ok_bump, of 5] by auto
qed

theorem push_reads_only_tail_witness:
  "next \<lparr>elem = 20 :: nat, next = None\<rparr> = None \<and> (1 :: nat) \<noteq> 2 \<and>
   (\<exists>c. dom c = {1, 2} \<and>
      (\<forall>l m. tail l = Some 1 \<longrightarrow> cells m 1 = Some \<lparr>elem = 20 :: nat, next = None\<rparr> \<longrightarrow> bump m = 2 \<longrightarrow>
         push bump 30 l m =
           Some (Inr (l\<lparr>tail := Some 2\<rparr>, m\<lparr>cells := cells m ++ c, brk := max (brk m) 3\<rparr>))))"
  using push_reads_only_tail [of "\<lparr>elem = 20 :: nat, next = None\<rparr>" 1 2 bump 30] by simp

theorem push_pop_roundtrip_witness:
  "mem_ok ex_mem \<and>
   (\<exists>l1 m1. push first_fit 5 new ex_mem = Some (Inr (l1, m1)) \<and>
      pop l1 m1 = Inr (Some 5, new, m1\<lparr>cells := cells ex_mem\<rparr>))"
  using ex_repr push_pop_roundtrip [of ex_mem first_fit 5] by simp

theorem push_dangling_tail_witness:
  "push bump (7 :: nat) \<lparr>head = None, tail = Some 0\<rparr> \<lparr>cells = Map.empty, brk = 1\<rparr> = Some (Inl (Dangling 0))"
  using push_dangling_tail [of "\<lparr>head = None, tail = Some 0\<rparr>" 0 "\<lparr>cells = Map.empty, brk = 1\<rparr>" bump
      "7 :: nat"]
  by (simp add: bump_def)

theorem push_drops_overwritten_link_witness:
  "tail \<lparr>head = Some 0, tail = Some 0\<rparr> = Some 0 \<and> cells ex_mem 0 = Some \<lparr>elem = 10, next = Some 1\<rparr> \<and>
   lseg (cells ex_mem) (Some 1) [1] None \<and> mem_ok ex_mem \<and>
   push bump 30 \<lparr>head = Some 0, tail = Some 0\<rparr> ex_mem =
     Some (Inr (\<lparr>head = Some 0, tail = Some 2\<rparr>,
                \<lparr>cells = Map.empty(2 \<mapsto> \<lparr>elem = 30, next = None\<rparr>, 0 \<mapsto> \<lparr>elem = 10, next = Some 2\<rparr>),
                 brk = 3\<rparr>))"
proof -
  have "(cells ex_mem |` (- set [1]))(2 \<mapsto> \<lparr>elem = 30, next = None\<rparr>, 0 \<mapsto> \<lparr>elem = 10, next = Some 2\<rparr>) =
        Map.empty(2 \<mapsto> \<lparr>elem = 30, next = None\<rparr>, 0 \<mapsto> \<lparr>elem = 10, next = Some 2\<rparr>)"
    by (auto simp: fun_eq_iff restrict_map_def)
  then show ?thesis
    using ex_repr push_drops_overwritten_link [of "\<lparr>head = Some 0, tail = Some 0\<rparr>" 0 ex_mem
        "\<lparr>elem = 10, next = Some 1\<rparr>" "[1]" bump 30]
    by (simp add: bump_def)
qed

theorem push_cyclic_tail_diverges_witness:
  "mem_ok \<lparr>cells = Map.empty(0 \<mapsto> \<lparr>elem = 10 :: nat, next = Some 1\<rparr>, 1 \<mapsto> \<lparr>elem = 20, next = Some 2\<rparr>,
                           2 \<mapsto> \<lparr>elem = 30, next = Some 1\<rparr>), brk = 3\<rparr> \<and>
   push first_fit (40 :: nat) \<lparr>head = Some 0, tail = Some 0\<rparr>
     \<lparr>cells = Map.empty(0 \<mapsto> \<lparr>elem = 10, next = Some 1\<rparr>, 1 \<mapsto> \<lparr>elem = 20, next = Some 2\<rparr>,
                      2 \<mapsto> \<lparr>elem = 30, next = Some 1\<rparr>), brk = 3\<rparr> = None"
  using push_cyclic_tail_diverges [of "\<lparr>head = Some 0, tail = Some 0\<rparr>" 0
      "\<lparr>cells = Map.empty(0 \<mapsto> \<lparr>elem = 10 :: nat, next = Some 1\<rparr>, 1 \<mapsto> \<lparr>elem = 20, next = Some 2\<rparr>,
                       2 \<mapsto> \<lparr>elem = 30, next = Some 1\<rparr>), brk = 3\<rparr>"
      "\<lparr>elem = 10, next = Some 1\<rparr>" "[]" 1 "[1, 2]" first_fit 40]
  by (simp add: mem_ok_def)

theorem pop_peek_dangling_head_witness:
  "pop \<lparr>head = Some 0, tail = Some 0\<rparr> (\<lparr>cells = Map.empty, brk = 1\<rparr> :: nat mem) = Inl (Dangling 0) \<and>
   peek \<lparr>head = Some 0, tail = Some 0\<rparr> (\<lparr>cells = Map.empty, brk = 1\<rparr> :: nat mem) = Inl (Dangling 0)"
  using pop_peek_dangling_head [of "\<lparr>head = Some 0, tail = Some 0\<rparr>" 0 "\<lparr>cells = Map.empty, brk = 1\<rparr> :: nat mem"]
  by simp

end
