(* ===== verification/Iterators.thy ===== *)
theory Iterators
  imports Queue
begin

text \<open>
  The three traversal views of \<open>src/src/fifth.rs\<close>. \<open>IntoIter\<close> owns the queue and its
  \<open>next\<close> is \<open>pop\<close>. \<open>Iter\<close> and \<open>IterMut\<close> hold the link to the node they visit
  next; \<open>iter\<close> and \<open>iter_mut\<close> build them from the head link. The source implements
  \<open>Iterator\<close> for \<open>IntoIter\<close> only; the advance steps \<open>iter_next\<close> and
  \<open>iter_mut_next\<close> follow the spec (sections 4.3, 4.4). \<open>Iter\<close> yields the element
  (an immutable reference is a read), \<open>IterMut\<close> yields the address of the node whose
  element a caller may assign. The client loops \<open>for x in it\<close> are the
  \<open>partial_function (option)\<close> definitions \<open>into_iter_collect\<close>, \<open>iter_collect\<close>
  and \<open>iter_mut_apply\<close>: \<open>None\<close> would be a loop that never ends, and the theorems
  prove that on a well-formed queue each ends with the contents in order.
\<close>

section \<open>Iterator types and operations\<close>

datatype 'a IntoIter = IntoIter "'a List"

datatype 'a Iter = Iter link

datatype 'a IterMut = IterMut link

definition into_iter :: "'a List \<Rightarrow> 'a IntoIter" where
  "into_iter l = IntoIter l"

definition iter :: "'a List \<Rightarrow> 'a Iter" where
  "iter l = Iter (head l)"

definition iter_mut :: "'a List \<Rightarrow> 'a IterMut" where
  "iter_mut l = IterMut (head l)"

fun into_iter_next :: "'a IntoIter \<Rightarrow> 'a mem \<Rightarrow> ub + 'a option \<times> 'a IntoIter \<times> 'a mem" where
  "into_iter_next (IntoIter l) m =
     (case pop l m of Inl e \<Rightarrow> Inl e | Inr (r, l', m') \<Rightarrow> Inr (r, IntoIter l', m'))"

fun iter_next :: "'a heap \<Rightarrow> 'a Iter \<Rightarrow> ub + ('a \<times> 'a Iter) option" where
  "iter_next h (Iter None) = Inr None"
| "iter_next h (Iter (Some a)) =
     (case load h a of Inl e \<Rightarrow> Inl e | Inr node \<Rightarrow> Inr (Some (elem node, Iter (next node))))"

fun iter_mut_next :: "'a heap \<Rightarrow> 'a IterMut \<Rightarrow> ub + (addr \<times> 'a IterMut) option" where
  "iter_mut_next h (IterMut None) = Inr None"
| "iter_mut_next h (IterMut (Some a)) =
     (case load h a of Inl e \<Rightarrow> Inl e | Inr node \<Rightarrow> Inr (Some (a, IterMut (next node))))"

section \<open>Client loops\<close>

text \<open>\<open>let v: Vec<T> = it.collect()\<close> for the consuming iterator: the elements, the
  exhausted iterator and the heap after the loop.\<close>

partial_function (option) into_iter_collect ::
  "'a IntoIter \<Rightarrow> 'a mem \<Rightarrow> 'a list \<Rightarrow> (ub + 'a list \<times> 'a IntoIter \<times> 'a mem) option" where
  "into_iter_collect it m acc =
     (case into_iter_next it m of
        Inl e \<Rightarrow> Some (Inl e)
      | Inr (None, it', m') \<Rightarrow> Some (Inr (acc, it', m'))
      | Inr (Some x, it', m') \<Rightarrow> into_iter_collect it' m' (acc @ [x]))"

partial_function (option) iter_collect ::
  "'a heap \<Rightarrow> 'a Iter \<Rightarrow> 'a list \<Rightarrow> (ub + 'a list) option" where
  "iter_collect h it acc =
     (case iter_next h it of
        Inl e \<Rightarrow> Some (Inl e)
      | Inr None \<Rightarrow> Some (Inr acc)
      | Inr (Some (x, it')) \<Rightarrow> iter_collect h it' (acc @ [x]))"

text \<open>\<open>for r in q.iter_mut() { *r = f(*r) }\<close>.\<close>

partial_function (option) iter_mut_apply ::
  "('a \<Rightarrow> 'a) \<Rightarrow> 'a IterMut \<Rightarrow> 'a mem \<Rightarrow> (ub + 'a mem) option" where
  "iter_mut_apply f it m =
     (case iter_mut_next (cells m) it of
        Inl e \<Rightarrow> Some (Inl e)
      | Inr None \<Rightarrow> Some (Inr m)
      | Inr (Some (a, it')) \<Rightarrow>
          (case load (cells m) a of
             Inl e \<Rightarrow> Some (Inl e)
           | Inr node \<Rightarrow> iter_mut_apply f it' (m\<lparr>cells := (cells m)(a \<mapsto> node\<lparr>elem := f (elem node)\<rparr>)\<rparr>)))"

text \<open>\<open>it.by_ref().take(n).collect()\<close>: at most \<open>n\<close> advances of the consuming
  iterator, which keeps the rest of the queue.\<close>

fun into_iter_take :: "nat \<Rightarrow> 'a IntoIter \<Rightarrow> 'a mem \<Rightarrow> ub + 'a list \<times> 'a IntoIter \<times> 'a mem" where
  "into_iter_take 0 it m = Inr ([], it, m)"
| "into_iter_take (Suc n) it m =
     (case into_iter_next it m of
        Inl e \<Rightarrow> Inl e
      | Inr (None, it', m') \<Rightarrow> Inr ([], it', m')
      | Inr (Some x, it', m') \<Rightarrow>
          (case into_iter_take n it' m' of
             Inl e \<Rightarrow> Inl e
           | Inr (xs, it'', m'') \<Rightarrow> Inr (x # xs, it'', m'')))"

section \<open>Lemmas\<close>

lemma into_iter_collect_repr:
  "queue_repr (cells m) l as \<Longrightarrow>
   into_iter_collect (IntoIter l) m acc =
     Some (Inr (acc @ vals (cells m) as, IntoIter new, m\<lparr>cells := cells m |` (- set as)\<rparr>))"
proof (induction as arbitrary: l m acc)
  case Nil
  then have "l = new" by (simp add: new_def)
  then show ?case by (simp add: into_iter_collect.simps pop_new)
next
  case (Cons a as)
  obtain n l' where n: "cells m a = Some n"
    and pop: "pop l m = Inr (Some (elem n), l', m\<lparr>cells := (cells m)(a := None)\<rparr>)"
    and repr: "queue_repr ((cells m)(a := None)) l' as"
    using pop_Cons [OF Cons.prems] by blast
  let ?m = "m\<lparr>cells := (cells m)(a := None)\<rparr>"
  have repr': "queue_repr (cells ?m) l' as" using repr by simp
  have "into_iter_collect (IntoIter l) m acc = into_iter_collect (IntoIter l') ?m (acc @ [elem n])"
    by (simp add: into_iter_collect.simps pop)
  also have "\<dots> = Some (Inr ((acc @ [elem n]) @ vals (cells ?m) as, IntoIter new,
                            ?m\<lparr>cells := cells ?m |` (- set as)\<rparr>))"
    by (rule Cons.IH [OF repr'])
  also have "?m\<lparr>cells := cells ?m |` (- set as)\<rparr> = m\<lparr>cells := cells m |` (- set (a # as))\<rparr>"
    by (simp add: fun_eq_iff restrict_map_def)
  also have "vals (cells ?m) as = vals (cells m) as"
    using Cons.prems n lseg_hd_notin by (fastforce simp: repr_simps)
  finally show ?case using n by simp
qed

lemma into_iter_take_repr:
  "queue_repr (cells m) l as \<Longrightarrow>
   \<exists>l'. into_iter_take n (IntoIter l) m =
          Inr (take n (vals (cells m) as), IntoIter l', m\<lparr>cells := cells m |` (- set (take n as))\<rparr>) \<and>
        queue_repr (cells m |` (- set (take n as))) l' (drop n as)"
proof (induction n arbitrary: l m as)
  case 0
  then show ?case by simp
next
  case (Suc n)
  show ?case
  proof (cases as)
    case Nil
    with Suc.prems have "l = new" by (simp add: new_def)
    with Nil show ?thesis by (simp add: pop_def new_def)
  next
    case (Cons a as')
    obtain n0 l1 where n0: "cells m a = Some n0"
      and pop: "pop l m = Inr (Some (elem n0), l1, m\<lparr>cells := (cells m)(a := None)\<rparr>)"
      and repr: "queue_repr ((cells m)(a := None)) l1 as'"
      using pop_Cons [OF Suc.prems [unfolded Cons]] by blast
    let ?m = "m\<lparr>cells := (cells m)(a := None)\<rparr>"
    have "queue_repr (cells ?m) l1 as'" using repr by simp
    from Suc.IH [OF this] obtain l' where t: "into_iter_take n (IntoIter l1) ?m =
        Inr (take n (vals (cells ?m) as'), IntoIter l', ?m\<lparr>cells := cells ?m |` (- set (take n as'))\<rparr>)"
      and r': "queue_repr (cells ?m |` (- set (take n as'))) l' (drop n as')"
      by blast
    have "a \<notin> set as'" using Suc.prems Cons n0 lseg_hd_notin by (fastforce simp: repr_simps)
    then have v: "vals (cells ?m) as' = vals (cells m) as'" by simp
    have c: "cells ?m |` (- set (take n as')) = cells m |` (- set (take (Suc n) as))"
      using Cons by (auto simp: fun_eq_iff restrict_map_def)
    show ?thesis using t r' pop n0 v c Cons by simp
  qed
qed

lemma iter_collect_lseg:
  "lseg h p as None \<Longrightarrow> iter_collect h (Iter p) acc = Some (Inr (acc @ vals h as))"
proof (induction as arbitrary: p acc)
  case Nil
  then show ?case by (simp add: iter_collect.simps)
next
  case (Cons a as)
  then obtain n where "p = Some a" "h a = Some n" "lseg h (next n) as None"
    by (auto split: option.splits)
  with Cons.IH show ?case by (simp add: iter_collect.simps [of h "Iter (Some a)"])
qed

lemma iter_mut_apply_lseg:
  "lseg (cells m) p as None \<Longrightarrow>
   \<exists>m'. iter_mut_apply f (IterMut p) m = Some (Inr m') \<and> lseg (cells m') p as None \<and>
        vals (cells m') as = map f (vals (cells m) as) \<and>
        (\<forall>b. b \<notin> set as \<longrightarrow> cells m' b = cells m b) \<and> brk m' = brk m"
proof (induction as arbitrary: p m)
  case Nil
  then show ?case by (simp add: iter_mut_apply.simps)
next
  case (Cons a as)
  then obtain n where p: "p = Some a" and n: "cells m a = Some n"
    and seg: "lseg (cells m) (next n) as None"
    by (auto split: option.splits)
  have notin: "a \<notin> set as" using n seg by (rule lseg_hd_notin)
  let ?m = "m\<lparr>cells := (cells m)(a \<mapsto> n\<lparr>elem := f (elem n)\<rparr>)\<rparr>"
  have "lseg (cells ?m) (next n) as None" using seg notin by simp
  then obtain m' where run: "iter_mut_apply f (IterMut (next n)) ?m = Some (Inr m')"
    and seg': "lseg (cells m') (next n) as None"
    and vals': "vals (cells m') as = map f (vals (cells ?m) as)"
    and frame: "\<forall>b. b \<notin> set as \<longrightarrow> cells m' b = cells ?m b" and "brk m' = brk m"
    using Cons.IH by fastforce
  have "iter_mut_apply f (IterMut p) m = Some (Inr m')"
    using run by (simp add: p n iter_mut_apply.simps [of f "IterMut (Some a)"])
  moreover have "cells m' a = Some (n\<lparr>elem := f (elem n)\<rparr>)" using frame notin by simp
  ultimately show ?case using p n seg' vals' frame notin \<open>brk m' = brk m\<close> by (auto simp: vals_def)
qed

text \<open>The loop over the mutable iterator writes elements only: it allocates and frees
  nothing.\<close>

lemma iter_mut_apply_mem:
  assumes "lseg (cells m) p as None"
  shows "\<exists>m'. iter_mut_apply f (IterMut p) m = Some (Inr m') \<and> lseg (cells m') p as None \<and>
              vals (cells m') as = map f (vals (cells m) as) \<and>
              dom (cells m') = dom (cells m) \<and> mem_ok m' = mem_ok m"
proof -
  obtain m' where r: "iter_mut_apply f (IterMut p) m = Some (Inr m')"
    and seg': "lseg (cells m') p as None" and v: "vals (cells m') as = map f (vals (cells m) as)"
    and frame: "\<forall>b. b \<notin> set as \<longrightarrow> cells m' b = cells m b" and b: "brk m' = brk m"
    using iter_mut_apply_lseg [OF assms, of f] by blast
  have "dom (cells m') = dom (cells m)"
    using dom_eq_frame [OF frame lseg_in_dom [OF seg'] lseg_in_dom [OF assms]] .
  with r seg' v b show ?thesis by (auto simp: mem_ok_def)
qed

section \<open>Properties of the iterators\<close>

text \<open>C14 (spec 4.2, P6): the consuming iterator yields exactly the queue's elements in
  insertion order, ends exhausted on an empty queue, never meets a dead node, and has
  freed every node of the chain when it is done.\<close>

theorem into_iter_yields_all:
  "queue_repr (cells m) l as \<Longrightarrow>
   into_iter_collect (into_iter l) m [] =
     Some (Inr (vals (cells m) as, IntoIter new, m\<lparr>cells := cells m |` (- set as)\<rparr>))"
  using into_iter_collect_repr [of m l as "[]"] by (simp add: into_iter_def)

text \<open>C15 (spec 4.3, P6): the borrowing iterator, built by \<open>iter\<close>, yields the queue's
  elements front to back and then stops; it only reads the heap, so the queue and every
  later \<open>pop\<close> are unaffected.\<close>

theorem iter_yields_all:
  "queue_repr h l as \<Longrightarrow> iter_collect h (iter l) [] = Some (Inr (vals h as))"
  using iter_collect_lseg [of h "head l" as "[]"] by (simp add: iter_def repr_simps)

text \<open>C16 (spec 4.4, P6): a loop over the mutable iterator, built by \<open>iter_mut\<close>, that
  replaces each element \<open>x\<close> by \<open>f x\<close> ends, keeps the queue well-formed, and a later
  borrowing traversal observes every replaced element in order.\<close>

theorem iter_mut_update:
  assumes "queue_repr (cells m) l as"
  shows "\<exists>m'. iter_mut_apply f (iter_mut l) m = Some (Inr m') \<and> queue_repr (cells m') l as \<and>
              iter_collect (cells m') (iter l) [] = Some (Inr (map f (vals (cells m) as)))"
proof -
  from assms have seg: "lseg (cells m) (head l) as None" by (simp add: repr_simps)
  obtain m' where "iter_mut_apply f (IterMut (head l)) m = Some (Inr m')"
    and seg': "lseg (cells m') (head l) as None"
    and "vals (cells m') as = map f (vals (cells m) as)"
    using iter_mut_apply_lseg [OF seg, of f] by blast
  moreover have "queue_repr (cells m') l as" using assms seg' by (simp add: repr_simps)
  ultimately show ?thesis
    using iter_collect_lseg [OF seg', of "[]"] by (simp add: iter_mut_def iter_def)
qed

section \<open>Witnesses\<close>

theorem into_iter_yields_all_witness:
  "queue_repr (cells ex_mem) ex_list [0, 1] \<and>
   into_iter_collect (into_iter ex_list) ex_mem [] =
     Some (Inr ([10, 20], IntoIter new, \<lparr>cells = Map.empty, brk = 2\<rparr>))"
proof -
  have "cells ex_mem |` (- set [0, 1]) = Map.empty"
    by (rule ext) (simp add: restrict_map_def)
  then show ?thesis using ex_repr into_iter_yields_all [of ex_mem ex_list "[0, 1]"] by simp
qed

theorem iter_yields_all_witness:
  "queue_repr (cells ex_mem) ex_list [0, 1] \<and>
   iter_collect (cells ex_mem) (iter ex_list) [] = Some (Inr [10, 20])"
  using ex_repr iter_yields_all [of "cells ex_mem" ex_list "[0, 1]"] by simp

theorem iter_mut_update_witness:
  "queue_repr (cells ex_mem) ex_list [0, 1] \<and>
   (\<exists>m'. iter_mut_apply Suc (iter_mut ex_list) ex_mem = Some (Inr m') \<and>
      queue_repr (cells m') ex_list [0, 1] \<and>
      iter_collect (cells m') (iter ex_list) [] = Some (Inr [11, 21]))"
  using ex_repr iter_mut_update [of ex_mem ex_list "[0, 1]" Suc] by simp

end
