(* ===== verification/Drop.thy ===== *)
theory Drop
  imports Iterators
begin

text \<open>
  The destructor \<open>impl Drop for List\<close> of \<open>src/src/fifth.rs\<close>. It takes the head
  link and walks the chain with a loop instead of letting the boxes drop recursively:
  each iteration takes the current node's \<open>next\<close> and lets the now isolated node be
  freed. The destructor is \<open>drop_List\<close> (the name \<open>drop\<close> is taken by lists); its
  loop is \<open>drop_loop\<close>, a \<open>partial_function (option)\<close> in tail position
  (constant stack), where \<open>None\<close> would mean that it never ends. The theorems show that
  on a well-formed queue it frees exactly the queue's nodes and nothing else, and that on
  any sound heap, even one whose chain is corrupted or cyclic, it ends.

  For comparison, \<open>drop_glue\<close> is the structural teardown the compiler would generate
  for the head link \<open>Option<Box<Node<T>>>\<close> without the \<open>Drop\<close> impl: dropping a
  box drops the node's \<open>next\<close> link first, recursively, and then frees the box. It
  is given a budget of \<open>k\<close> stack frames, one per nested box, and is \<open>None\<close> when the
  recursion exceeds it (a stack overflow). The theorems show that with enough stack it
  frees the same cells as the loop, and that it overflows exactly when the chain is longer
  than the budget, which is why the source replaces it by the loop, and that whenever it
  does return it agrees with the unbounded drop glue \<open>drop_link\<close> of \<open>Memory\<close>.

  \<open>IntoIter\<close> has no \<open>Drop\<close> impl of its own: dropping it drops its field, the list,
  which runs \<open>impl Drop for List\<close> (\<open>drop_IntoIter\<close>).
\<close>

partial_function (option) drop_loop :: "link \<Rightarrow> 'a mem \<Rightarrow> (ub + 'a mem) option" where
  "drop_loop cur_link m =
     (case cur_link of
        None \<Rightarrow> Some (Inr m)
      | Some a \<Rightarrow>
          (case load (cells m) a of
             Inl e \<Rightarrow> Some (Inl e)
           | Inr boxed_node \<Rightarrow>
               drop_loop (next boxed_node) (m\<lparr>cells := (cells m)(a := None)\<rparr>)))"

definition drop_List :: "'a List \<Rightarrow> 'a mem \<Rightarrow> (ub + 'a mem) option" where
  "drop_List l m = drop_loop (head l) m"

fun drop_glue :: "nat \<Rightarrow> link \<Rightarrow> 'a mem \<Rightarrow> (ub + 'a mem) option" where
  "drop_glue k None m = Some (Inr m)"
| "drop_glue 0 (Some a) m = None"
| "drop_glue (Suc k) (Some a) m =
     (case load (cells m) a of
        Inl e \<Rightarrow> Some (Inl e)
      | Inr node \<Rightarrow>
          (case drop_glue k (next node) m of
             None \<Rightarrow> None
           | Some (Inl e) \<Rightarrow> Some (Inl e)
           | Some (Inr m') \<Rightarrow> Some (Inr (m'\<lparr>cells := (cells m')(a := None)\<rparr>))))"

definition drop_IntoIter :: "'a IntoIter \<Rightarrow> 'a mem \<Rightarrow> (ub + 'a mem) option" where
  "drop_IntoIter it m = (case it of IntoIter l \<Rightarrow> drop_List l m)"

section \<open>Lemmas\<close>

lemma drop_loop_None [simp]: "drop_loop None m = Some (Inr m)"
  by (simp add: drop_loop.simps)

lemma drop_loop_Some:
  "cells m a = Some n \<Longrightarrow>
   drop_loop (Some a) m = drop_loop (next n) (m\<lparr>cells := (cells m)(a := None)\<rparr>)"
  by (simp add: drop_loop.simps)

lemma drop_loop_lseg:
  "lseg (cells m) p as None \<Longrightarrow> drop_loop p m = Some (Inr (m\<lparr>cells := cells m |` (- set as)\<rparr>))"
proof (induction as arbitrary: p m)
  case Nil
  then show ?case by simp
next
  case (Cons a as)
  then obtain n where p: "p = Some a" and n: "cells m a = Some n"
    and seg: "lseg (cells m) (next n) as None"
    by (auto split: option.splits)
  let ?m = "m\<lparr>cells := (cells m)(a := None)\<rparr>"
  have seg': "lseg (cells ?m) (next n) as None" using lseg_pop_tail [OF n seg] by simp
  have "drop_loop p m = drop_loop (next n) ?m" by (simp add: p drop_loop_Some [OF n])
  also have "\<dots> = Some (Inr (?m\<lparr>cells := cells ?m |` (- set as)\<rparr>))" by (rule Cons.IH [OF seg'])
  also have "?m\<lparr>cells := cells ?m |` (- set as)\<rparr> = m\<lparr>cells := cells m |` (- set (a # as))\<rparr>"
    by (simp add: fun_eq_iff restrict_map_def)
  finally show ?case .
qed

lemma drop_loop_terminates:
  "finite (dom (cells m)) \<Longrightarrow> \<exists>r. drop_loop p m = Some r"
proof (induction "card (dom (cells m))" arbitrary: p m rule: less_induct)
  case less
  show ?case
  proof (cases p)
    case None
    then show ?thesis by simp
  next
    case (Some a)
    show ?thesis
    proof (cases "cells m a")
      case None
      with Some show ?thesis by (simp add: drop_loop.simps)
    next
      case (Some n)
      let ?m = "m\<lparr>cells := (cells m)(a := None)\<rparr>"
      have "a \<in> dom (cells m)" using Some by blast
      from card_Diff1_less [OF less.prems this]
      have "card (dom (cells ?m)) < card (dom (cells m))" by simp
      moreover have "finite (dom (cells ?m))" using less.prems by simp
      ultimately obtain r where "drop_loop (next n) ?m = Some r" using less.hyps by blast
      with \<open>p = Some a\<close> Some show ?thesis by (auto simp: drop_loop_Some)
    qed
  qed
qed

text \<open>The recursive teardown of a chain of \<open>n\<close> nodes needs \<open>n\<close> frames: with
  them it frees exactly the chain, with fewer it overflows.\<close>

lemma drop_glue_lseg:
  "lseg (cells m) p as None \<Longrightarrow> length as \<le> k \<Longrightarrow>
   drop_glue k p m = Some (Inr (m\<lparr>cells := cells m |` (- set as)\<rparr>))"
proof (induction as arbitrary: p k)
  case Nil
  then show ?case by simp
next
  case (Cons a as)
  then obtain n k' where p: "p = Some a" and n: "cells m a = Some n"
    and seg: "lseg (cells m) (next n) as None" and k: "k = Suc k'" and "length as \<le> k'"
    by (cases k) (auto split: option.splits)
  then have "drop_glue k' (next n) m = Some (Inr (m\<lparr>cells := cells m |` (- set as)\<rparr>))"
    using Cons.IH by blast
  moreover have "(cells m |` (- set as))(a := None) = cells m |` (- set (a # as))"
    by (simp add: fun_eq_iff restrict_map_def)
  ultimately show ?case by (simp add: p n k)
qed

lemma drop_glue_overflow:
  "lseg (cells m) p as None \<Longrightarrow> k < length as \<Longrightarrow> drop_glue k p m = None"
proof (induction as arbitrary: p k)
  case Nil
  then show ?case by simp
next
  case (Cons a as)
  then obtain n where p: "p = Some a" and n: "cells m a = Some n"
    and seg: "lseg (cells m) (next n) as None"
    by (auto split: option.splits)
  show ?case
  proof (cases k)
    case 0
    then show ?thesis by (simp add: p)
  next
    case (Suc k')
    with Cons.prems(2) have "drop_glue k' (next n) m = None" using Cons.IH [OF seg] by simp
    then show ?thesis by (simp add: p n Suc)
  qed
qed

text \<open>A queue that owns every live cell leaves an empty heap behind when dropped.\<close>

lemma owned_drop_empty:
  assumes "queue_repr (cells m) l as" and "dom (cells m) = set as"
  shows "drop_List l m = Some (Inr (m\<lparr>cells := Map.empty\<rparr>))"
proof -
  have "cells m |` (- set as) = Map.empty"
    using assms(2) by (auto simp: restrict_map_def fun_eq_iff)
  moreover have "lseg (cells m) (head l) as None" using assms(1) by (simp add: repr_simps)
  ultimately show ?thesis by (simp add: drop_List_def drop_loop_lseg)
qed

lemma mem_ok_finite: "mem_ok m \<Longrightarrow> finite (dom (cells m))"
  by (auto simp: mem_ok_def intro: finite_subset [of _ "{..<brk m}"])

section \<open>Properties of the destructor\<close>

text \<open>C12 (spec 4.1, destruction): dropping a well-formed queue ends, never meets a dead
  node, and frees exactly the nodes of its chain: no node leaks, none is freed twice,
  and every other cell of the heap is untouched.\<close>

theorem drop_frees_chain:
  "queue_repr (cells m) l as \<Longrightarrow> drop_List l m = Some (Inr (m\<lparr>cells := cells m |` (- set as)\<rparr>))"
  by (simp add: drop_List_def repr_simps drop_loop_lseg)

text \<open>C13 (termination): the teardown loop ends on every sound heap, whatever the queue
  fields hold, even a chain that is cyclic or runs into freed memory: each iteration
  frees one live cell or stops at a dead one.\<close>

theorem drop_terminates:
  "mem_ok m \<Longrightarrow> \<exists>r. drop_List l m = Some r"
  by (simp add: drop_List_def drop_loop_terminates mem_ok_finite)

text \<open>C27 (equivalence, spec section 3): whenever the stack holds as many frames as the
  queue has nodes, the compiler's recursive teardown and the source's loop have the same
  effect: both free exactly the queue's chain.\<close>

theorem drop_glue_equiv_loop:
  assumes "queue_repr (cells m) l as" and "length as \<le> k"
  shows "drop_glue k (head l) m = drop_List l m"
proof -
  have "lseg (cells m) (head l) as None" using assms(1) by (simp add: repr_simps)
  with assms(2) show ?thesis by (simp add: drop_List_def drop_loop_lseg drop_glue_lseg)
qed

text \<open>C34 (an abandoned consuming iterator, spec 4.2 and 3): taking any number of
  elements from the consuming iterator and then dropping it returns the front elements
  in order and, across the \<open>pop\<close>s and the destructor run by the iterator's drop, frees
  every node of the queue exactly once: nothing leaks and nothing is freed twice.\<close>

theorem into_iter_abandoned_frees_all:
  assumes "queue_repr (cells m) l as"
  shows "\<exists>it m'. into_iter_take n (into_iter l) m = Inr (take n (vals (cells m) as), it, m') \<and>
                drop_IntoIter it m' = Some (Inr (m\<lparr>cells := cells m |` (- set as)\<rparr>))"
proof -
  obtain l' where t: "into_iter_take n (IntoIter l) m =
      Inr (take n (vals (cells m) as), IntoIter l', m\<lparr>cells := cells m |` (- set (take n as))\<rparr>)"
    and r: "queue_repr (cells m |` (- set (take n as))) l' (drop n as)"
    using into_iter_take_repr [OF assms, of n] by blast
  let ?m = "m\<lparr>cells := cells m |` (- set (take n as))\<rparr>"
  have "lseg (cells ?m) (head l') (drop n as) None" using r by (simp add: repr_simps)
  then have "drop_List l' ?m = Some (Inr (?m\<lparr>cells := cells ?m |` (- set (drop n as))\<rparr>))"
    by (simp add: drop_List_def drop_loop_lseg)
  moreover have "set as = set (take n as) \<union> set (drop n as)"
    by (metis append_take_drop_id set_append)
  then have "cells ?m |` (- set (drop n as)) = cells m |` (- set as)"
    by (auto simp: fun_eq_iff restrict_map_def)
  ultimately show ?thesis using t by (simp add: into_iter_def drop_IntoIter_def)
qed

section \<open>Witnesses\<close>

theorem drop_frees_chain_witness:
  "queue_repr (cells ex_mem) ex_list [0, 1] \<and>
   drop_List ex_list ex_mem = Some (Inr \<lparr>cells = Map.empty, brk = 2\<rparr>)"
proof -
  have "cells ex_mem |` (- set [0, 1]) = Map.empty"
    by (rule ext) (simp add: restrict_map_def)
  then show ?thesis using ex_repr drop_frees_chain [of ex_mem ex_list "[0, 1]"] by simp
qed

theorem drop_terminates_witness:
  "mem_ok \<lparr>cells = Map.empty(0 \<mapsto> \<lparr>elem = 1 :: nat, next = Some 0\<rparr>), brk = 1\<rparr> \<and>
   (\<exists>r. drop_List \<lparr>head = Some 0, tail = Some 0\<rparr>
              \<lparr>cells = Map.empty(0 \<mapsto> \<lparr>elem = 1 :: nat, next = Some 0\<rparr>), brk = 1\<rparr> = Some r)"
  using drop_terminates [of "\<lparr>cells = Map.empty(0 \<mapsto> \<lparr>elem = 1 :: nat, next = Some 0\<rparr>), brk = 1\<rparr>"
                            "\<lparr>head = Some 0, tail = Some 0\<rparr>"]
  by (simp add: mem_ok_def)

theorem drop_glue_equiv_loop_witness:
  "queue_repr (cells ex_mem) ex_list [0, 1] \<and> length [0 :: nat, 1] \<le> 2 \<and>
   drop_glue 2 (head ex_list) ex_mem = drop_List ex_list ex_mem"
  using ex_repr drop_glue_equiv_loop [of ex_mem ex_list "[0, 1]" 2] by simp

theorem into_iter_abandoned_frees_all_witness:
  "queue_repr (cells ex_mem) ex_list [0, 1] \<and>
   (\<exists>it m'. into_iter_take 1 (into_iter ex_list) ex_mem = Inr ([10], it, m') \<and>
            drop_IntoIter it m' = Some (Inr \<lparr>cells = Map.empty, brk = 2\<rparr>))"
proof -
  have "cells ex_mem |` (- set [0, 1]) = Map.empty"
    by (rule ext) (simp add: restrict_map_def)
  then show ?thesis using ex_repr into_iter_abandoned_frees_all [of ex_mem ex_list "[0, 1]" 1] by simp
qed

end
