(* ===== verification/Machine.thy ===== *)
theory Machine
  imports Iterators Drop
begin

text \<open>
  The queue as a state machine driven by its callers. A caller issues the operations of
  \<open>Queue_Spec.op\<close>: \<open>push\<close>, \<open>pop\<close>, \<open>peek\<close>, a write through the reference
  \<open>peek_mut\<close> returns (\<open>if let Some(r) = q.peek_mut() { *r = v }\<close>), a traversal
  \<open>q.iter().collect()\<close>, an update loop \<open>for r in q.iter_mut() { *r = f(*r) }\<close>, and
  a drain \<open>mem::replace(&mut q, List::new()).into_iter().collect()\<close>, after which the
  exhausted iterator, and the list inside it, is dropped. \<open>step\<close> runs one of them on
  the queue and its heap with the global allocator \<open>alloc\<close>, and \<open>run\<close> a sequence,
  stopping at the first undefined behaviour; both are \<open>None\<close> when a client loop never
  ends. \<open>reachable\<close> holds the states some sequence of successful steps, each with
  any allocator that meets the contract \<open>alloc_ok\<close>, reaches from \<open>List::new()\<close> on an
  empty heap; its invariants are proved by rule induction.
\<close>

type_synonym 'a state = "'a List \<times> 'a mem"

fun step :: "'a allocator \<Rightarrow> 'a op \<Rightarrow> 'a state \<Rightarrow> (ub + 'a out \<times> 'a state) option" where
  "step alloc (Push x) (l, m) =
     (case push alloc x l m of
        None \<Rightarrow> None
      | Some (Inl e) \<Rightarrow> Some (Inl e)
      | Some (Inr s) \<Rightarrow> Some (Inr (Pushed, s)))"
| "step alloc Pop (l, m) =
     Some (case pop l m of Inl e \<Rightarrow> Inl e | Inr (r, s) \<Rightarrow> Inr (Popped r, s))"
| "step alloc Peek (l, m) =
     Some (case peek l m of Inl e \<Rightarrow> Inl e | Inr r \<Rightarrow> Inr (Peeked r, l, m))"
| "step alloc (SetFront v) (l, m) =
     Some (case peek_mut l of
             None \<Rightarrow> Inr (Updated False, l, m)
           | Some a \<Rightarrow> (case write_elem a v m of Inl e \<Rightarrow> Inl e | Inr m' \<Rightarrow> Inr (Updated True, l, m')))"
| "step alloc Traverse (l, m) =
     (case iter_collect (cells m) (iter l) [] of
        None \<Rightarrow> None
      | Some (Inl e) \<Rightarrow> Some (Inl e)
      | Some (Inr xs) \<Rightarrow> Some (Inr (Traversed xs, l, m)))"
| "step alloc (UpdateAll f) (l, m) =
     (case iter_mut_apply f (iter_mut l) m of
        None \<Rightarrow> None
      | Some (Inl e) \<Rightarrow> Some (Inl e)
      | Some (Inr m') \<Rightarrow> Some (Inr (UpdatedAll, l, m')))"
| "step alloc Drain (l, m) =
     (case into_iter_collect (into_iter l) m [] of
        None \<Rightarrow> None
      | Some (Inl e) \<Rightarrow> Some (Inl e)
      | Some (Inr (xs, IntoIter l', m')) \<Rightarrow>
          (case drop_List l' m' of
             None \<Rightarrow> None
           | Some (Inl e) \<Rightarrow> Some (Inl e)
           | Some (Inr m'') \<Rightarrow> Some (Inr (Drained xs, new, m''))))"

fun run :: "'a allocator \<Rightarrow> 'a op list \<Rightarrow> 'a state \<Rightarrow> (ub + 'a out list \<times> 'a state) option" where
  "run alloc [] s = Some (Inr ([], s))"
| "run alloc (c # cs) s =
     (case step alloc c s of
        None \<Rightarrow> None
      | Some (Inl e) \<Rightarrow> Some (Inl e)
      | Some (Inr (r, s')) \<Rightarrow>
          (case run alloc cs s' of
             None \<Rightarrow> None
           | Some (Inl e) \<Rightarrow> Some (Inl e)
           | Some (Inr (rs, s'')) \<Rightarrow> Some (Inr (r # rs, s''))))"

inductive reachable :: "'a state \<Rightarrow> bool" where
  init: "reachable (new, empty_mem)"
| step: "reachable s \<Longrightarrow> alloc_ok alloc \<Longrightarrow> step alloc c s = Some (Inr (r, s')) \<Longrightarrow> reachable s'"

text \<open>The abstraction: a state is well-formed and represents the contract's list \<open>xs\<close>.\<close>

definition sim :: "'a state \<Rightarrow> 'a list \<Rightarrow> bool" where
  "sim s xs \<longleftrightarrow> (\<exists>as. queue_repr (cells (snd s)) (fst s) as \<and> mem_ok (snd s) \<and>
                      vals (cells (snd s)) as = xs)"

text \<open>
  Pointer typing of a state, after the heap conformance of the Jinja heap: every pointer
  the state holds (the head link, the raw tail pointer, and the forward link of every
  live node) is null or designates a live node.
\<close>

definition link_ok :: "'a heap \<Rightarrow> link \<Rightarrow> bool" where
  "link_ok h p \<longleftrightarrow> (case p of None \<Rightarrow> True | Some a \<Rightarrow> a \<in> dom h)"

definition state_typed :: "'a state \<Rightarrow> bool" where
  "state_typed s \<longleftrightarrow>
     link_ok (cells (snd s)) (head (fst s)) \<and> link_ok (cells (snd s)) (tail (fst s)) \<and>
     (\<forall>a\<in>dom (cells (snd s)). link_ok (cells (snd s)) (next (the (cells (snd s) a))))"

section \<open>Lemmas\<close>

lemma aset_front_tl: "aset_front v xs = (if xs = [] then [] else v # tl xs)"
  by (cases xs) auto

text \<open>One step from a well-formed queue over the address list \<open>as\<close>: it ends, returns
  what the contract returns, the result is well-formed over some \<open>as'\<close>, and the live
  cells outside the chain are unchanged. The queue core's operations first, then the
  iterator loops.\<close>

lemma step_core_repr:
  assumes repr: "queue_repr (cells m) l as" and ok: "mem_ok m" and al: "alloc_ok alloc"
    and c: "c \<in> {Pop, Peek} \<union> range Push \<union> range SetFront"
  shows "\<exists>l' m' as'. step alloc c (l, m) = Some (Inr (fst (astep c (vals (cells m) as)), l', m')) \<and>
           queue_repr (cells m') l' as' \<and> mem_ok m' \<and>
           vals (cells m') as' = snd (astep c (vals (cells m) as)) \<and>
           dom (cells m') - set as' = dom (cells m) - set as"
proof -
  let ?xs = "vals (cells m) as"
  consider (Push) x where "c = Push x" | (Pop) "c = Pop" | (Peek) "c = Peek"
    | (SetFront) v where "c = SetFront v"
    using c by blast
  then show ?thesis
  proof cases
    case (Push x)
    obtain l1 m1 where p: "push alloc x l m = Some (Inr (l1, m1))"
      and "queue_repr (cells m1) l1 (as @ [alloc m])" "mem_ok m1"
      and "vals (cells m1) (as @ [alloc m]) = apush x ?xs"
      using push_sim [OF repr ok al, of x] by blast
    moreover have "dom (cells m1) = insert (alloc m) (dom (cells m))" by (rule push_dom [OF repr ok al p])
    moreover have "alloc m \<notin> dom (cells m)" using alloc_fresh [OF al ok] by auto
    ultimately show ?thesis using Push
      by (simp del: vals_snoc) (rule exI [of _ "as @ [alloc m]"], auto simp del: vals_snoc)
  next
    case Pop
    obtain r l1 m1 where "pop l m = Inr (r, l1, m1)" and "queue_repr (cells m1) l1 (tl as)"
      and "mem_ok m1" and v: "(r, vals (cells m1) (tl as)) = apop ?xs"
      and c1: "cells m1 = cells m |` (- set (take 1 as))"
      using pop_sim [OF repr ok] by blast
    moreover have "distinct as" using repr by (rule queue_repr_distinct)
    with c1 have "dom (cells m1) - set (tl as) = dom (cells m) - set as" by (cases as) auto
    ultimately show ?thesis using Pop by (simp add: v [symmetric]) blast
  next
    case Peek
    then show ?thesis using peek_sim [OF repr] repr ok by auto
  next
    case (SetFront v)
    show ?thesis
    proof (cases "as = []")
      case True
      with repr ok SetFront show ?thesis by (auto simp: peek_mut_def)
    next
      case False
      obtain m1 where "peek_mut l = Some (hd as)" and w: "write_elem (hd as) v m = Inr m1"
        and "queue_repr (cells m1) l as" and "vals (cells m1) as = v # tl ?xs"
        using peek_mut_sim [OF repr False, of v] by blast
      moreover have "dom (cells m1) = dom (cells m) \<and> mem_ok m1 = mem_ok m"
        using w by (rule write_elem_dom)
      ultimately show ?thesis using SetFront ok False by (auto simp: aset_front_tl)
    qed
  qed
qed

lemma step_iter_repr:
  assumes repr: "queue_repr (cells m) l as" and ok: "mem_ok m"
    and c: "c \<in> {Traverse, Drain} \<union> range UpdateAll"
  shows "\<exists>l' m' as'. step alloc c (l, m) = Some (Inr (fst (astep c (vals (cells m) as)), l', m')) \<and>
           queue_repr (cells m') l' as' \<and> mem_ok m' \<and>
           vals (cells m') as' = snd (astep c (vals (cells m) as)) \<and>
           dom (cells m') - set as' = dom (cells m) - set as"
proof -
  have seg: "lseg (cells m) (head l) as None" using repr by (simp add: repr_simps)
  consider (Traverse) "c = Traverse" | (Drain) "c = Drain" | (UpdateAll) f where "c = UpdateAll f"
    using c by blast
  then show ?thesis
  proof cases
    case Traverse
    then show ?thesis using iter_collect_lseg [OF seg, of "[]"] repr ok by (auto simp: iter_def)
  next
    case Drain
    have "into_iter_collect (into_iter l) m [] =
            Some (Inr (vals (cells m) as, IntoIter new, m\<lparr>cells := cells m |` (- set as)\<rparr>))"
      using into_iter_collect_repr [OF repr, of "[]"] by (simp add: into_iter_def)
    with Drain ok show ?thesis by (auto simp: drop_List_def new_def)
  next
    case (UpdateAll f)
    obtain m1 where "iter_mut_apply f (IterMut (head l)) m = Some (Inr m1)"
      and "lseg (cells m1) (head l) as None" and "vals (cells m1) as = map f (vals (cells m) as)"
      and "dom (cells m1) = dom (cells m)" and "mem_ok m1 = mem_ok m"
      using iter_mut_apply_mem [OF seg, of f] by blast
    with UpdateAll repr ok show ?thesis by (auto simp: iter_mut_def repr_simps)
  qed
qed

lemma step_repr:
  assumes "queue_repr (cells m) l as" and "mem_ok m" and "alloc_ok alloc"
  shows "\<exists>l' m' as'. step alloc c (l, m) = Some (Inr (fst (astep c (vals (cells m) as)), l', m')) \<and>
           queue_repr (cells m') l' as' \<and> mem_ok m' \<and>
           vals (cells m') as' = snd (astep c (vals (cells m) as)) \<and>
           dom (cells m') - set as' = dom (cells m) - set as"
proof (cases "c \<in> {Traverse, Drain} \<union> range UpdateAll")
  case True
  then show ?thesis using step_iter_repr [OF assms(1,2)] by blast
next
  case False
  then have "c \<in> {Pop, Peek} \<union> range Push \<union> range SetFront" by (cases c) auto
  then show ?thesis using step_core_repr [OF assms] by blast
qed

lemma step_sim:
  assumes "sim s xs" and "alloc_ok alloc"
  shows "\<exists>s'. step alloc c s = Some (Inr (fst (astep c xs), s')) \<and> sim s' (snd (astep c xs))"
proof -
  obtain l m as where s: "s = (l, m)" and repr: "queue_repr (cells m) l as"
    and ok: "mem_ok m" and xs: "xs = vals (cells m) as"
    using assms(1) by (cases s) (auto simp: sim_def)
  show ?thesis using step_repr [OF repr ok assms(2), of c] s xs by (fastforce simp: sim_def)
qed

lemma run_sim:
  "sim s xs \<Longrightarrow> alloc_ok alloc \<Longrightarrow>
   \<exists>s'. run alloc cs s = Some (Inr (fst (arun cs xs), s')) \<and> sim s' (snd (arun cs xs))"
proof (induction cs arbitrary: s xs)
  case Nil
  then show ?case by simp
next
  case (Cons c cs)
  obtain s1 where s1: "step alloc c s = Some (Inr (fst (astep c xs), s1))" "sim s1 (snd (astep c xs))"
    using step_sim [OF Cons.prems] by blast
  obtain s2 where "run alloc cs s1 = Some (Inr (fst (arun cs (snd (astep c xs))), s2))"
    "sim s2 (snd (arun cs (snd (astep c xs))))"
    using Cons.IH [OF s1(2) Cons.prems(2)] by blast
  then show ?case using s1 by (auto split: prod.splits)
qed

lemma sim_init: "sim (new, empty_mem) []"
  by (simp add: sim_def)

lemma reachable_sim: "reachable s \<Longrightarrow> \<exists>xs. sim s xs"
proof (induction rule: reachable.induct)
  case init
  then show ?case using sim_init by blast
next
  case (step s alloc c r s')
  then obtain xs where "sim s xs" by blast
  from step_sim [OF this step.hyps(2), of c] step.hyps(3) show ?case by auto
qed

lemma reachable_run:
  "reachable s \<Longrightarrow> alloc_ok alloc \<Longrightarrow> run alloc cs s = Some (Inr (rs, s')) \<Longrightarrow> reachable s'"
proof (induction cs arbitrary: s rs)
  case Nil
  then show ?case by simp
next
  case (Cons c cs)
  then obtain r s1 rs1 where st: "step alloc c s = Some (Inr (r, s1))"
    and "run alloc cs s1 = Some (Inr (rs1, s'))"
    by (auto split: option.splits sum.splits prod.splits)
  moreover have "reachable s1" using reachable.step [OF Cons.prems(1,2) st] .
  ultimately show ?case using Cons.IH Cons.prems(2) by blast
qed

lemma reachable_owned:
  "reachable (l, m) \<Longrightarrow> \<exists>as. queue_repr (cells m) l as \<and> mem_ok m \<and> dom (cells m) = set as"
proof (induction "(l, m)" arbitrary: l m rule: reachable.induct)
  case init
  then show ?case by (auto simp: empty_mem_def new_def mem_ok_def intro!: exI [of _ "[]"])
next
  case (step s alloc c r l m)
  obtain l0 m0 where s: "s = (l0, m0)" by (cases s)
  with step.hyps(2) obtain as where "queue_repr (cells m0) l0 as" "mem_ok m0" "dom (cells m0) = set as"
    by blast
  with step_repr [OF _ _ step.hyps(3), of m0 l0 as c] step.hyps(4) s
  obtain as' where r: "queue_repr (cells m) l as'" and "mem_ok m"
    and "dom (cells m) - set as' = {}"
    by fastforce
  moreover have "set as' \<subseteq> dom (cells m)" using r by (rule queue_repr_in_dom)
  ultimately show ?case using r by blast
qed

text \<open>A well-formed queue that owns every live cell is well typed.\<close>

lemma owned_typed:
  assumes repr: "queue_repr (cells m) l as" and d: "dom (cells m) = set as"
  shows "state_typed (l, m)"
proof -
  have seg: "lseg (cells m) (head l) as None" using repr by (simp add: repr_simps)
  have "link_ok (cells m) (head l)" using seg d by (cases as) (auto simp: link_ok_def)
  moreover have "link_ok (cells m) (tail l)" using repr d by (auto simp: repr_simps link_ok_def)
  moreover have "link_ok (cells m) (next (the (cells m a)))" if a: "a \<in> dom (cells m)" for a
  proof -
    obtain n where n: "cells m a = Some n" using a by auto
    then show ?thesis using lseg_next_in [OF seg _ n] a d by (auto simp: link_ok_def split: option.splits)
  qed
  ultimately show ?thesis by (simp add: state_typed_def)
qed

text \<open>A step writes no live cell outside its own queue's chain.\<close>

lemma step_frame_cells:
  assumes repr: "queue_repr (cells m) l as" and ok: "mem_ok m" and al: "alloc_ok alloc"
    and st: "step alloc c (l, m) = Some (Inr (r, l', m'))"
    and b: "b \<in> dom (cells m)" "b \<notin> set as"
  shows "cells m' b = cells m b"
proof -
  have seg: "lseg (cells m) (head l) as None" using repr by (simp add: repr_simps)
  show ?thesis
  proof (cases c)
    case (Push x)
    with st obtain l1 where p: "push alloc x l m = Some (Inr (l1, m'))"
      by (auto split: option.splits sum.splits)
    have "b \<noteq> alloc m" using alloc_fresh [OF al ok] b(1) by auto
    with b(2) push_changed [OF repr ok al p] show ?thesis by (cases "as = []") auto
  next
    case Pop
    obtain r1 l1 m1 where "pop l m = Inr (r1, l1, m1)" and "cells m1 = cells m |` (- set (take 1 as))"
      using pop_sim [OF repr ok] by blast
    with st Pop have "cells m' = cells m |` (- set (take 1 as))" by auto
    then show ?thesis using b(2) set_take_subset [of 1 as] by (auto simp: restrict_map_def)
  next
    case Peek
    then show ?thesis using st peek_sim [OF repr] by auto
  next
    case (SetFront v)
    show ?thesis
    proof (cases "as = []")
      case True
      then show ?thesis using st SetFront repr by (auto simp: peek_mut_def)
    next
      case False
      obtain m1 where "peek_mut l = Some (hd as)" and w: "write_elem (hd as) v m = Inr m1"
        using peek_mut_sim [OF repr False, of v] by blast
      with st SetFront have "m' = m1" by auto
      moreover have "b \<noteq> hd as" using b(2) False by auto
      ultimately show ?thesis using write_elem_other [OF w] by simp
    qed
  next
    case Traverse
    then show ?thesis using st iter_collect_lseg [OF seg, of "[]"] by (auto simp: iter_def)
  next
    case (UpdateAll f)
    obtain m1 where "iter_mut_apply f (IterMut (head l)) m = Some (Inr m1)"
      and "\<forall>b. b \<notin> set as \<longrightarrow> cells m1 b = cells m b"
      using iter_mut_apply_lseg [OF seg, of f] by blast
    with st UpdateAll b(2) show ?thesis by (auto simp: iter_mut_def)
  next
    case Drain
    have "into_iter_collect (into_iter l) m [] =
            Some (Inr (vals (cells m) as, IntoIter new, m\<lparr>cells := cells m |` (- set as)\<rparr>))"
      using into_iter_collect_repr [OF repr, of "[]"] by (simp add: into_iter_def)
    with st Drain b(2) show ?thesis by (auto simp: drop_List_def new_def restrict_map_def)
  qed
qed

text \<open>A step on one queue keeps a second queue over a disjoint chain of the same heap
  well-formed with the same contents, and the chains stay disjoint.\<close>

lemma step_other_queue:
  assumes repr: "queue_repr (cells m) l as" and other: "queue_repr (cells m) k bs"
    and disj: "set as \<inter> set bs = {}" and ok: "mem_ok m" and al: "alloc_ok alloc"
  shows "\<exists>l' m' as'. step alloc c (l, m) = Some (Inr (fst (astep c (vals (cells m) as)), l', m')) \<and>
           queue_repr (cells m') l' as' \<and> mem_ok m' \<and>
           vals (cells m') as' = snd (astep c (vals (cells m) as)) \<and>
           queue_repr (cells m') k bs \<and> vals (cells m') bs = vals (cells m) bs \<and>
           set as' \<inter> set bs = {}"
proof -
  obtain l' m' as' where st: "step alloc c (l, m) = Some (Inr (fst (astep c (vals (cells m) as)), l', m'))"
    and r': "queue_repr (cells m') l' as'" and o': "mem_ok m'"
    and v': "vals (cells m') as' = snd (astep c (vals (cells m) as))"
    and d: "dom (cells m') - set as' = dom (cells m) - set as"
    using step_repr [OF repr ok al] by blast
  have bs_dom: "set bs \<subseteq> dom (cells m)" using other by (rule queue_repr_in_dom)
  have same: "\<forall>b\<in>set bs. cells m' b = cells m b"
    using step_frame_cells [OF repr ok al st] bs_dom disj by blast
  have "queue_repr (cells m') k bs" using other lseg_frame [OF same] by (simp add: repr_simps)
  moreover have "vals (cells m') bs = vals (cells m) bs" using same by (rule vals_frame)
  moreover have "set as' \<subseteq> dom (cells m')" using r' by (rule queue_repr_in_dom)
  then have "set as' \<inter> set bs = {}" using d bs_dom disj by blast
  ultimately show ?thesis using st r' o' v' by blast
qed

text \<open>The converse of \<open>reachable_owned\<close>: every well-formed queue that owns every live
  cell of a sound heap is reached, by pushing its elements in order onto a new queue, each
  node placed at its address by the allocator \<open>prefer_at\<close>, after one push and pop that
  raise the break to that of the heap.\<close>

lemma reachable_empty_heap: "reachable (new, \<lparr>cells = Map.empty, brk = B\<rparr>)"
proof (cases B)
  case 0
  then show ?thesis using reachable.init by (simp add: empty_mem_def)
next
  case (Suc k)
  let ?s = "(\<lparr>head = Some k, tail = Some k\<rparr>, \<lparr>cells = Map.empty(k \<mapsto> \<lparr>elem = undefined, next = None\<rparr>), brk = Suc k\<rparr>)"
  have "step (prefer_at k) (Push undefined) (new, empty_mem) = Some (Inr (Pushed, ?s))"
    by (simp add: push_empty new_def empty_mem_def prefer_at_def)
  then have "reachable ?s" by (rule reachable.step [OF reachable.init alloc_ok_prefer_at])
  moreover have "step bump Pop ?s = Some (Inr (Popped (Some undefined), new, \<lparr>cells = Map.empty, brk = Suc k\<rparr>))"
    by (simp add: pop_def new_def)
  ultimately show ?thesis using Suc by (blast intro: reachable.step [OF _ alloc_ok_bump])
qed

lemma owned_reachable:
  "queue_repr (cells m) l as \<Longrightarrow> mem_ok m \<Longrightarrow> dom (cells m) = set as \<Longrightarrow> reachable (l, m)"
proof (induction as arbitrary: l m rule: rev_induct)
  case Nil
  then have "l = new" "m = \<lparr>cells = Map.empty, brk = brk m\<rparr>"
    by (simp_all add: new_def fun_eq_iff)
  then show ?case using reachable_empty_heap by metis
next
  case (snoc a as)
  have d: "distinct (as @ [a])" using snoc.prems(1) by (rule queue_repr_distinct)
  obtain na where seg: "lseg (cells m) (head l) as (Some a)" and na: "cells m a = Some na"
    and nn: "next na = None" and tl: "tail l = Some a"
    using snoc.prems(1) by (auto simp: repr_simps split: option.splits)
  have lt: "a < brk m" using snoc.prems(2) na by (auto simp: mem_ok_def)
  have na_eq: "\<lparr>elem = elem na, next = None\<rparr> = na" using nn by simp
  show ?case
  proof (cases "as = []")
    case True
    let ?m0 = "\<lparr>cells = Map.empty, brk = brk m\<rparr> :: 'a mem"
    have l: "l = \<lparr>head = Some a, tail = Some a\<rparr>" using seg tl True by simp
    have c: "cells m = Map.empty(a \<mapsto> na)" using snoc.prems(3) na True by (auto simp: fun_eq_iff)
    have "step (prefer_at a) (Push (elem na)) (new, ?m0) = Some (Inr (Pushed, l, m))"
      using lt l c na_eq by (simp add: push_empty new_def prefer_at_def max_def)
    then show ?thesis by (rule reachable.step [OF reachable_empty_heap alloc_ok_prefer_at])
  next
    case False
    let ?t = "last as"
    obtain q where s1: "lseg (cells m) (head l) (butlast as) q" and s2: "lseg (cells m) q [?t] (Some a)"
      using seg False by (metis append_butlast_last_id lseg_append)
    then obtain nt where nt: "cells m ?t = Some nt" and ntn: "next nt = Some a"
      by (auto split: option.splits)
    have ta: "?t \<noteq> a" "a \<notin> set as" using d False by auto
    let ?l0 = "l\<lparr>tail := Some ?t\<rparr>"
    let ?m0 = "m\<lparr>cells := (cells m)(a := None, ?t \<mapsto> nt\<lparr>next := None\<rparr>)\<rparr>"
    have "lseg ((cells m)(?t \<mapsto> nt\<lparr>next := None\<rparr>)) (head l) as None"
      using lseg_relink_last [OF seg False _ nt] d by simp
    moreover have "cells ?m0 = ((cells m)(?t \<mapsto> nt\<lparr>next := None\<rparr>))(a := None)"
      using ta by (simp add: fun_upd_twist)
    ultimately have "lseg (cells ?m0) (head l) as None" using ta by simp
    then have r0: "queue_repr (cells ?m0) ?l0 as" using False by (simp add: repr_simps)
    have ok0: "mem_ok ?m0" using snoc.prems(2) nt by (auto simp: mem_ok_def)
    have d0: "dom (cells ?m0) = set as" using snoc.prems(3) ta False by auto
    have reach0: "reachable (?l0, ?m0)" by (rule snoc.IH [OF r0 ok0 d0])
    have pa: "prefer_at a ?m0 = a" using ta by (simp add: prefer_at_def)
    have "push (prefer_at a) (elem na) ?l0 ?m0 =
            Some (Inr (?l0\<lparr>tail := Some (prefer_at a ?m0)\<rparr>,
                       ?m0\<lparr>cells := (cells ?m0)(prefer_at a ?m0 \<mapsto> \<lparr>elem = elem na, next = None\<rparr>,
                                               ?t \<mapsto> (nt\<lparr>next := None\<rparr>)\<lparr>next := Some (prefer_at a ?m0)\<rparr>),
                           brk := max (brk ?m0) (Suc (prefer_at a ?m0))\<rparr>))"
      by (rule push_nonempty) (simp_all add: pa ta)
    then have "push (prefer_at a) (elem na) ?l0 ?m0 =
            Some (Inr (?l0\<lparr>tail := Some a\<rparr>,
                       ?m0\<lparr>cells := (cells ?m0)(a \<mapsto> \<lparr>elem = elem na, next = None\<rparr>,
                                               ?t \<mapsto> (nt\<lparr>next := None\<rparr>)\<lparr>next := Some a\<rparr>),
                           brk := max (brk ?m0) (Suc a)\<rparr>))"
      by (simp only: pa)
    moreover have "?l0\<lparr>tail := Some a\<rparr> = l" using tl by simp
    moreover have "(cells ?m0)(a \<mapsto> \<lparr>elem = elem na, next = None\<rparr>, ?t \<mapsto> (nt\<lparr>next := None\<rparr>)\<lparr>next := Some a\<rparr>) =
                   cells m"
      using na nt ntn na_eq ta by (auto simp: fun_eq_iff)
    moreover have "max (brk m) (Suc a) = brk m" using lt by simp
    ultimately have "step (prefer_at a) (Push (elem na)) (?l0, ?m0) = Some (Inr (Pushed, l, m))"
      by simp
    then show ?thesis by (rule reachable.step [OF reach0 alloc_ok_prefer_at])
  qed
qed

lemma sim_Nil_new: "sim s [] \<Longrightarrow> fst s = new \<and> mem_ok (snd s)"
  by (auto simp: sim_def new_def)

section \<open>Properties of the queue as a state machine\<close>

text \<open>C1 (spec P3, interleaving): the queue refines its list contract on every sequence
  of operations, with any allocator that hands out free addresses (reusing freed ones
  included). From a well-formed queue, any interleaving of \<open>push\<close>, \<open>pop\<close>,
  \<open>peek\<close>, writes through \<open>peek_mut\<close>, traversals, update loops over
  \<open>iter_mut\<close> and drains through \<open>into_iter\<close> ends, runs without undefined
  behaviour, returns at each step what the contract returns (so each \<open>pop\<close> returns
  the earliest pushed element not yet popped, or nothing), and ends in a well-formed queue
  holding the contract's final list.\<close>

theorem run_refines:
  assumes "queue_repr (cells m) l as" and "mem_ok m" and "alloc_ok alloc"
  shows "\<exists>l' m' as'. run alloc cs (l, m) = Some (Inr (fst (arun cs (vals (cells m) as)), l', m')) \<and>
           queue_repr (cells m') l' as' \<and> mem_ok m' \<and>
           vals (cells m') as' = snd (arun cs (vals (cells m) as))"
proof -
  have "sim (l, m) (vals (cells m) as)" using assms by (auto simp: sim_def)
  from run_sim [OF this assms(3), of cs] show ?thesis by (auto simp: sim_def)
qed

text \<open>C5 (the reachable states, exactly): a state is reached from \<open>List::new()\<close> on an
  empty heap by some sequence of operations, each with an allocator meeting its contract,
  exactly when it is a well-formed queue (spec I1--I3) over a sound heap whose live cells
  are exactly the queue's nodes. So the invariants C8, C18 and C25 describe every
  reachable state and nothing more: \<open>push\<close> and \<open>pop\<close> build every queue of every
  length and layout, with every high-water mark of the heap.\<close>

theorem reachable_iff_owned:
  "reachable (l, m) \<longleftrightarrow> (\<exists>as. queue_repr (cells m) l as \<and> mem_ok m \<and> dom (cells m) = set as)"
  using reachable_owned owned_reachable by blast


text \<open>C9 (safety): in every reachable state, every operation, with any allocator that
  meets its contract, ends and succeeds: no dereference of the head box, of the raw tail
  pointer or of an iterator's link ever meets a dead node, and no client loop runs
  forever.\<close>

theorem reachable_no_ub:
  "reachable s \<Longrightarrow> alloc_ok alloc \<Longrightarrow> \<exists>r s'. step alloc c s = Some (Inr (r, s'))"
  using reachable_sim step_sim by blast


text \<open>C25 (pointer typing): in every reachable state every pointer is well typed: the
  head link, the raw tail pointer and the forward link of every live node are null or
  designate a live node. No pointer of the state dangles, whichever allocator placed the
  nodes.\<close>

theorem reachable_typed:
  "reachable s \<Longrightarrow> state_typed s"
  using reachable_owned owned_typed by (cases s) blast

text \<open>C26 (liveness, eventual delivery): from every reachable state, an element pushed
  onto the queue is delivered: popping as many times as the queue held elements, plus
  one, returns the queue's old elements, front first, and then the pushed one, and leaves
  the queue empty. No element is ever overtaken or held back.\<close>

theorem eventual_delivery:
  assumes "reachable (l, m)" and "queue_repr (cells m) l as" and "alloc_ok alloc"
  shows "\<exists>s'. run alloc (Push x # replicate (Suc (length as)) Pop) (l, m) =
                Some (Inr (Pushed # map (Popped \<circ> Some) (vals (cells m) as @ [x]), s')) \<and> fst s' = new"
proof -
  let ?ys = "vals (cells m) as"
  have "mem_ok m" using reachable_owned [OF assms(1)] by blast
  then have sim: "sim (l, m) ?ys" using assms(2) by (auto simp: sim_def)
  let ?cs = "Push x # replicate (Suc (length as)) Pop"
  have a: "arun ?cs ?ys = (Pushed # map (Popped \<circ> Some) (?ys @ [x]), [])"
    using arun_pops [of "?ys @ [x]" "[]"] by (simp add: apush_def)
  obtain s' where r: "run alloc ?cs (l, m) = Some (Inr (fst (arun ?cs ?ys), s'))"
    and "sim s' (snd (arun ?cs ?ys))"
    using run_sim [OF sim assms(3)] by blast
  then have "fst s' = new" unfolding a snd_conv using sim_Nil_new by blast
  with r show ?thesis unfolding a fst_conv by blast
qed

text \<open>C32 (the drop in \<open>push\<close> on reachable states, spec I2): in every reachable state,
  with any allocator meeting its contract, \<open>push\<close> returns, allocates exactly one cell
  that was free and frees none: the link its write \<open>(*self.tail).next = ...\<close> overwrites
  is null, so the drop glue it runs does nothing.\<close>

theorem reachable_push_frees_nothing:
  assumes "reachable (l, m)" and "alloc_ok alloc"
  shows "\<exists>l' m'. push alloc x l m = Some (Inr (l', m')) \<and> alloc m \<notin> dom (cells m) \<and>
                dom (cells m') = insert (alloc m) (dom (cells m))"
proof -
  obtain as where repr: "queue_repr (cells m) l as" and ok: "mem_ok m"
    using reachable_owned [OF assms(1)] by blast
  obtain l' m' where p: "push alloc x l m = Some (Inr (l', m'))"
    using push_sim [OF repr ok assms(2), of x] by blast
  show ?thesis using p push_dom [OF repr ok assms(2) p] alloc_fresh [OF assms(2) ok] by auto
qed

section \<open>Witnesses\<close>

lemma reachable_one:
  "reachable (\<lparr>head = Some 0, tail = Some 0\<rparr>,
              \<lparr>cells = Map.empty(0 \<mapsto> \<lparr>elem = 5 :: nat, next = None\<rparr>), brk = 1\<rparr>)"
  by (rule reachable.step [OF reachable.init alloc_ok_bump, of "Push 5"])
     (simp add: push_def box_new_def Let_def bump_def new_def empty_mem_def)

theorem run_refines_witness:
  "queue_repr (cells ex_mem) ex_list [0, 1] \<and> mem_ok ex_mem \<and>
   (\<exists>l' m' as'.
      run first_fit [Pop, Push 3, Peek, SetFront 4, UpdateAll Suc, Traverse, Drain, Push 7]
        (ex_list, ex_mem) =
      Some (Inr ([Popped (Some 10), Pushed, Peeked (Some 20), Updated True, UpdatedAll,
                  Traversed [5, 4], Drained [5, 4], Pushed], l', m')) \<and>
      queue_repr (cells m') l' as' \<and> mem_ok m' \<and> vals (cells m') as' = [7])"
  using ex_repr run_refines [of ex_mem ex_list "[0, 1]" first_fit
      "[Pop, Push 3, Peek, SetFront 4, UpdateAll Suc, Traverse, Drain, Push 7]"]
  by (simp add: apush_def)


theorem reachable_no_ub_witness:
  "\<exists>r s'. step first_fit Drain (\<lparr>head = Some 0, tail = Some 0\<rparr>,
              \<lparr>cells = Map.empty(0 \<mapsto> \<lparr>elem = 5 :: nat, next = None\<rparr>), brk = 1\<rparr>) = Some (Inr (r, s'))"
  using reachable_no_ub [OF reachable_one alloc_ok_first_fit] by blast


theorem reachable_typed_witness:
  "state_typed (\<lparr>head = Some 0, tail = Some 0\<rparr>,
                \<lparr>cells = Map.empty(0 \<mapsto> \<lparr>elem = 5 :: nat, next = None\<rparr>), brk = 1\<rparr>)"
  using reachable_typed [OF reachable_one] .

theorem eventual_delivery_witness:
  "queue_repr (Map.empty(0 \<mapsto> \<lparr>elem = 5 :: nat, next = None\<rparr>)) \<lparr>head = Some 0, tail = Some 0\<rparr> [0] \<and>
   (\<exists>s'. run first_fit [Push 6, Pop, Pop]
              (\<lparr>head = Some 0, tail = Some 0\<rparr>,
               \<lparr>cells = Map.empty(0 \<mapsto> \<lparr>elem = 5 :: nat, next = None\<rparr>), brk = 1\<rparr>) =
            Some (Inr ([Pushed, Popped (Some 5), Popped (Some 6)], s')) \<and> fst s' = new)"
proof -
  have r: "queue_repr (Map.empty(0 \<mapsto> \<lparr>elem = 5 :: nat, next = None\<rparr>)) \<lparr>head = Some 0, tail = Some 0\<rparr> [0]"
    by (simp add: repr_simps)
  show ?thesis
    using r eventual_delivery [OF reachable_one _ alloc_ok_first_fit, of "[0]" 6]
    by (simp del: run.simps add: numeral_2_eq_2)
qed

theorem reachable_push_frees_nothing_witness:
  "\<exists>l' m'. push bump (7 :: nat) \<lparr>head = Some 0, tail = Some 0\<rparr>
              \<lparr>cells = Map.empty(0 \<mapsto> \<lparr>elem = 5, next = None\<rparr>), brk = 1\<rparr> = Some (Inr (l', m')) \<and>
            dom (cells m') = {1, 0}"
  using reachable_push_frees_nothing [OF reachable_one alloc_ok_bump, of 7] by (simp add: bump_def)

theorem reachable_iff_owned_witness:
  "reachable (ex_list, ex_mem)"
proof -
  have "dom (cells ex_mem) = set [0, 1]" by auto
  then show ?thesis using ex_repr reachable_iff_owned [of ex_list ex_mem] by blast
qed

end
