(* ===== verification/Two_Queues.thy ===== *)
theory Two_Queues
  imports Machine
begin

text \<open>
  A client that holds two queues of \<open>src/src/fifth.rs\<close> at once: both live in one heap
  and take their nodes from one global allocator, and the client interleaves operations
  on them. \<open>step2\<close> runs one operation, addressed to the first or the second queue, by
  the single-queue \<open>step\<close> of \<open>Machine\<close>; \<open>run2\<close> runs a sequence. The contract of the
  pair is \<open>arun2\<close>, two independent list contracts. The theorems show that the pair of
  queues implements it from any two well-formed queues over disjoint chains, and that
  what each queue returns is what it would return alone.
\<close>

datatype qid = Q1 | Q2

type_synonym 'a state2 = "'a List \<times> 'a List \<times> 'a mem"

fun step2 :: "'a allocator \<Rightarrow> qid \<times> 'a op \<Rightarrow> 'a state2 \<Rightarrow> (ub + 'a out \<times> 'a state2) option" where
  "step2 alloc (Q1, c) (l1, l2, m) =
     (case step alloc c (l1, m) of
        None \<Rightarrow> None
      | Some (Inl e) \<Rightarrow> Some (Inl e)
      | Some (Inr (r, l1', m')) \<Rightarrow> Some (Inr (r, l1', l2, m')))"
| "step2 alloc (Q2, c) (l1, l2, m) =
     (case step alloc c (l2, m) of
        None \<Rightarrow> None
      | Some (Inl e) \<Rightarrow> Some (Inl e)
      | Some (Inr (r, l2', m')) \<Rightarrow> Some (Inr (r, l1, l2', m')))"

fun run2 :: "'a allocator \<Rightarrow> (qid \<times> 'a op) list \<Rightarrow> 'a state2 \<Rightarrow> (ub + 'a out list \<times> 'a state2) option" where
  "run2 alloc [] s = Some (Inr ([], s))"
| "run2 alloc (c # cs) s =
     (case step2 alloc c s of
        None \<Rightarrow> None
      | Some (Inl e) \<Rightarrow> Some (Inl e)
      | Some (Inr (r, s')) \<Rightarrow>
          (case run2 alloc cs s' of
             None \<Rightarrow> None
           | Some (Inl e) \<Rightarrow> Some (Inl e)
           | Some (Inr (rs, s'')) \<Rightarrow> Some (Inr (r # rs, s''))))"

text \<open>The contract of the pair: each operation acts on its own queue's list.\<close>

fun pick :: "qid \<Rightarrow> 'a \<times> 'a \<Rightarrow> 'a" where
  "pick Q1 xys = fst xys"
| "pick Q2 xys = snd xys"

fun astep2 :: "qid \<times> 'a op \<Rightarrow> 'a list \<times> 'a list \<Rightarrow> 'a out \<times> 'a list \<times> 'a list" where
  "astep2 (Q1, c) (xs, ys) = (let (r, xs') = astep c xs in (r, xs', ys))"
| "astep2 (Q2, c) (xs, ys) = (let (r, ys') = astep c ys in (r, xs, ys'))"

fun arun2 :: "(qid \<times> 'a op) list \<Rightarrow> 'a list \<times> 'a list \<Rightarrow> 'a out list \<times> 'a list \<times> 'a list" where
  "arun2 [] xys = ([], xys)"
| "arun2 (c # cs) xys =
     (let (r, xys') = astep2 c xys; (rs, xys'') = arun2 cs xys' in (r # rs, xys''))"

text \<open>The operations of a sequence addressed to queue \<open>q\<close>, and the results they got.\<close>

definition ops_of :: "qid \<Rightarrow> (qid \<times> 'a op) list \<Rightarrow> 'a op list" where
  "ops_of q cs = map snd (filter (\<lambda>c. fst c = q) cs)"

definition outs_of :: "qid \<Rightarrow> (qid \<times> 'a op) list \<Rightarrow> 'a out list \<Rightarrow> 'a out list" where
  "outs_of q cs rs = map snd (filter (\<lambda>p. fst p = q) (zip (map fst cs) rs))"

text \<open>The abstraction: two well-formed queues over disjoint chains of a sound heap,
  representing the pair of lists \<open>xys\<close>.\<close>

definition sim2 :: "'a state2 \<Rightarrow> 'a list \<times> 'a list \<Rightarrow> bool" where
  "sim2 s xys \<longleftrightarrow>
     (case s of (l1, l2, m) \<Rightarrow>
        \<exists>as bs. queue_repr (cells m) l1 as \<and> queue_repr (cells m) l2 bs \<and> set as \<inter> set bs = {} \<and>
                mem_ok m \<and> vals (cells m) as = fst xys \<and> vals (cells m) bs = snd xys)"

section \<open>Lemmas\<close>

lemma step2_sim:
  assumes "sim2 s xys" and "alloc_ok alloc"
  shows "\<exists>s'. step2 alloc c s = Some (Inr (fst (astep2 c xys), s')) \<and> sim2 s' (snd (astep2 c xys))"
proof -
  obtain l1 l2 m as bs where s: "s = (l1, l2, m)" and r1: "queue_repr (cells m) l1 as"
    and r2: "queue_repr (cells m) l2 bs" and d: "set as \<inter> set bs = {}" and ok: "mem_ok m"
    and xys: "xys = (vals (cells m) as, vals (cells m) bs)"
    using assms(1) by (cases s, cases xys) (auto simp: sim2_def)
  obtain q c' where c: "c = (q, c')" by (cases c)
  show ?thesis
  proof (cases q)
    case Q1
    from step_other_queue [OF r1 r2 d ok assms(2), of c'] s xys c Q1 show ?thesis
      by (auto simp: sim2_def split: prod.splits) blast
  next
    case Q2
    have d': "set bs \<inter> set as = {}" using d by blast
    from step_other_queue [OF r2 r1 d' ok assms(2), of c'] s xys c Q2 show ?thesis
      by (auto simp: sim2_def split: prod.splits) blast
  qed
qed

lemma run2_sim:
  "sim2 s xys \<Longrightarrow> alloc_ok alloc \<Longrightarrow>
   \<exists>s'. run2 alloc cs s = Some (Inr (fst (arun2 cs xys), s')) \<and> sim2 s' (snd (arun2 cs xys))"
proof (induction cs arbitrary: s xys)
  case Nil
  then show ?case by simp
next
  case (Cons c cs)
  obtain s1 where s1: "step2 alloc c s = Some (Inr (fst (astep2 c xys), s1))"
    "sim2 s1 (snd (astep2 c xys))"
    using step2_sim [OF Cons.prems] by blast
  obtain s2 where "run2 alloc cs s1 = Some (Inr (fst (arun2 cs (snd (astep2 c xys))), s2))"
    "sim2 s2 (snd (arun2 cs (snd (astep2 c xys))))"
    using Cons.IH [OF s1(2) Cons.prems(2)] by blast
  then show ?case using s1 by (auto split: prod.splits)
qed

text \<open>The contract of the pair projects onto the contract of each queue.\<close>

lemma arun2_proj:
  "outs_of q cs (fst (arun2 cs xys)) = fst (arun (ops_of q cs) (pick q xys)) \<and>
   pick q (snd (arun2 cs xys)) = snd (arun (ops_of q cs) (pick q xys))"
proof (induction cs arbitrary: xys)
  case Nil
  then show ?case by (simp add: outs_of_def ops_of_def)
next
  case (Cons c cs)
  obtain p c' where c: "c = (p, c')" by (cases c)
  obtain xs ys where xys: "xys = (xs, ys)" by (cases xys)
  show ?case
    using Cons.IH [of "snd (astep2 c xys)"] c xys
    by (cases p; cases q) (auto simp: outs_of_def ops_of_def split: prod.splits)
qed

lemma sim2_init: "sim2 (new, new, empty_mem) ([], [])"
  by (simp add: sim2_def new_def)

section \<open>Properties of two queues over one heap\<close>

text \<open>C29 (composition, spec I3): two queues over disjoint chains of one heap, fed by one
  allocator, implement two independent list contracts: any interleaving of operations on
  them, the iterator loops included, ends without undefined behaviour, returns at each
  step what the addressed queue's contract returns, and leaves two well-formed queues
  over disjoint chains holding the contracts' final lists.\<close>

theorem run2_refines:
  assumes "queue_repr (cells m) l1 as" and "queue_repr (cells m) l2 bs"
    and "set as \<inter> set bs = {}" and "mem_ok m" and "alloc_ok alloc"
  shows "\<exists>l1' l2' m' as' bs'.
           run2 alloc cs (l1, l2, m) =
             Some (Inr (fst (arun2 cs (vals (cells m) as, vals (cells m) bs)), l1', l2', m')) \<and>
           queue_repr (cells m') l1' as' \<and> queue_repr (cells m') l2' bs' \<and>
           set as' \<inter> set bs' = {} \<and> mem_ok m' \<and>
           (vals (cells m') as', vals (cells m') bs') = snd (arun2 cs (vals (cells m) as, vals (cells m) bs))"
proof -
  have "sim2 (l1, l2, m) (vals (cells m) as, vals (cells m) bs)" using assms by (auto simp: sim2_def)
  from run2_sim [OF this assms(5), of cs] obtain l1' l2' m' where
    "run2 alloc cs (l1, l2, m) = Some (Inr (fst (arun2 cs (vals (cells m) as, vals (cells m) bs)), l1', l2', m'))"
    and "sim2 (l1', l2', m') (snd (arun2 cs (vals (cells m) as, vals (cells m) bs)))"
    by (metis prod_cases3)
  then show ?thesis unfolding sim2_def by (simp add: prod_eq_iff)
qed

text \<open>C30 (non-interference): starting from two new queues on an empty heap, whatever
  the interleaving, the results that each queue returns are exactly those it returns when
  its own operations run alone on a fresh heap: sharing the heap and the allocator is
  invisible to either queue.\<close>

theorem two_queues_independent:
  assumes "alloc_ok alloc"
  shows "\<exists>outs s'. run2 alloc cs (new, new, empty_mem) = Some (Inr (outs, s')) \<and>
           (\<forall>q. \<exists>s1. run alloc (ops_of q cs) (new, empty_mem) = Some (Inr (outs_of q cs outs, s1)))"
proof -
  obtain s' where r: "run2 alloc cs (new, new, empty_mem) = Some (Inr (fst (arun2 cs ([], [])), s'))"
    using run2_sim [OF sim2_init assms] by blast
  have "\<exists>s1. run alloc (ops_of q cs) (new, empty_mem) = Some (Inr (outs_of q cs (fst (arun2 cs ([], []))), s1))"
    for q
  proof -
    have "pick q ([], []) = ([] :: 'a list)" by (cases q) auto
    then have "outs_of q cs (fst (arun2 cs ([], []))) = fst (arun (ops_of q cs) [])"
      using arun2_proj [of q cs "([], [])"] by simp
    with run_sim [OF sim_init assms, of "ops_of q cs"] show ?thesis by auto
  qed
  with r show ?thesis by blast
qed

section \<open>Witnesses\<close>

theorem run2_refines_witness:
  "queue_repr (cells two_mem) \<lparr>head = Some 0, tail = Some 0\<rparr> [0] \<and>
   queue_repr (cells two_mem) \<lparr>head = Some 1, tail = Some 1\<rparr> [1] \<and> mem_ok two_mem \<and>
   (\<exists>l1' l2' m' as' bs'.
      run2 first_fit [(Q1, Push 5), (Q2, Pop), (Q2, Push 6), (Q1, Traverse), (Q2, Drain)]
        (\<lparr>head = Some 0, tail = Some 0\<rparr>, \<lparr>head = Some 1, tail = Some 1\<rparr>, two_mem) =
      Some (Inr ([Pushed, Popped (Some 20), Pushed, Traversed [10, 5], Drained [6]], l1', l2', m')) \<and>
      queue_repr (cells m') l1' as' \<and> queue_repr (cells m') l2' bs' \<and>
      set as' \<inter> set bs' = {} \<and> mem_ok m' \<and> (vals (cells m') as', vals (cells m') bs') = ([10, 5], []))"
proof -
  have h: "queue_repr (cells two_mem) \<lparr>head = Some 0, tail = Some 0\<rparr> [0]"
    "queue_repr (cells two_mem) \<lparr>head = Some 1, tail = Some 1\<rparr> [1]"
    "set [0] \<inter> set [1 :: nat] = {}" "mem_ok two_mem"
    by (simp_all add: repr_simps mem_ok_def)
  show ?thesis
    using h run2_refines [OF h alloc_ok_first_fit,
        of "[(Q1, Push 5), (Q2, Pop), (Q2, Push 6), (Q1, Traverse), (Q2, Drain)]"]
    by (simp add: apush_def)
qed

theorem two_queues_independent_witness:
  "\<exists>outs s'. run2 first_fit [(Q1, Push (1 :: nat)), (Q2, Push 2), (Q1, Push 3), (Q2, Pop), (Q1, Drain)]
                (new, new, empty_mem) = Some (Inr (outs, s')) \<and>
     (\<forall>q. \<exists>s1. run first_fit (ops_of q [(Q1, Push 1), (Q2, Push 2), (Q1, Push 3), (Q2, Pop), (Q1, Drain)])
                  (new, empty_mem) =
                Some (Inr (outs_of q [(Q1, Push 1), (Q2, Push 2), (Q1, Push 3), (Q2, Pop), (Q1, Drain)] outs, s1)))"
  using two_queues_independent [OF alloc_ok_first_fit] .

end
