(* ===== verification/Spec2Isabelle.thy ===== *)
theory Spec2Isabelle
  imports Machine Drop Iterators Two_Queues
begin

text \<open>
  \<^bold>\<open>A verified model of the unsafe FIFO queue of \<open>src/src/fifth.rs\<close>.\<close>

  \<^bold>\<open>The program.\<close> \<open>List<T>\<close> is a singly linked queue: \<open>head\<close> owns the first
  \<open>Box<Node<T>>\<close>, each \<open>Node\<close> owns the next through its \<open>next\<close> link, and \<open>tail\<close>
  is a raw pointer (\<open>*mut Node<T>\<close>, null when empty) to the last node, so that
  \<open>push\<close> appends in constant time by writing through it. \<open>pop\<close> takes the head box
  and resets \<open>tail\<close> to null when the queue empties; \<open>peek\<close> and \<open>peek_mut\<close> give
  references to the head element; \<open>impl Drop\<close> frees the chain with a loop; the
  consuming iterator \<open>IntoIter\<close> calls \<open>pop\<close>; \<open>Iter\<close> and \<open>IterMut\<close> hold a link to
  the next node. The module \<open>test\<close> runs one scenario, \<open>basics\<close>.

  \<^bold>\<open>The model.\<close> Because the raw pointer and the owning boxes alias the same nodes, the
  model keeps an explicit heap, as the Hoare-logic heap theories do, and passes it through
  every operation:
  \<^item> \<open>Prelude\<close>: addresses (\<open>nat\<close>), links (\<open>addr option\<close>, \<open>Link<T>\<close> and the raw
    pointer alike), the error \<open>Dangling\<close> for a dereference that meets no live node
    (undefined behaviour in Rust), shared list and map lemmas.
  \<^item> \<open>Memory\<close>: the record \<open>Node\<close> (\<open>elem\<close>, \<open>next\<close>); the heap \<open>addr \<Rightarrow> Node option\<close>
    inside the record \<open>mem\<close>, whose \<open>brk\<close> bounds the live addresses (\<open>mem_ok\<close>);
    \<open>box_new alloc\<close> for \<open>Box::new\<close>, where the global allocator is a parameter
    \<open>alloc\<close> with the contract \<open>alloc_ok\<close> (it returns a free address, after Jinja's
    \<open>new_Addr\<close>) and two instances, \<open>bump\<close> and \<open>first_fit\<close>, which reuses freed
    cells, and \<open>prefer_at\<close>, which places a node at a chosen free address;
    \<open>load\<close> for a dereference; \<open>drop_link\<close>, the drop glue of \<open>Link<T>\<close>
    (drop the \<open>next\<close> link, then free the box), and \<open>assign_next\<close>, the assignment
    \<open>(*t).next = v\<close> that drops the overwritten link in place; the chain predicate \<open>lseg h p as q\<close> and the
    contents \<open>vals h as\<close>; lemmas: frame rules under updates outside a chain,
    uniqueness and distinctness (acyclicity) of a null-terminated chain, its last node,
    closure of its links.
  \<^item> \<open>Queue_Spec\<close>: the contract, a queue as the list of its elements (\<open>apush\<close>,
    \<open>apop\<close>, \<open>apeek\<close>, \<open>aset_front\<close>, and for the iterators traversal, \<open>map\<close>,
    drain), the operations a client issues (\<open>op\<close>) and their runs \<open>arun\<close>.
  \<^item> \<open>Queue\<close>: the record \<open>List\<close> (\<open>head\<close>, \<open>tail\<close>) and \<open>new\<close>, \<open>push\<close>, \<open>pop\<close>,
    \<open>peek\<close>, \<open>peek_mut\<close> of \<open>impl List\<close>, each line by line, every dereference a
    \<open>load\<close> whose \<open>Dangling\<close> branch is kept; \<open>write_elem\<close> is a caller's assignment
    through \<open>peek_mut\<close>'s reference. The invariant \<open>queue_repr h l as\<close> is the spec's
    I1--I3: the head starts a null-terminated chain through the nodes \<open>as\<close> and the tail
    pointer is null iff \<open>as\<close> is empty and otherwise \<open>last as\<close>.
  \<^item> \<open>Iterators\<close>: \<open>IntoIter\<close>, \<open>Iter\<close>, \<open>IterMut\<close>, their constructors and \<open>next\<close>
    steps, and the client loops that drain them (\<open>partial_function (option)\<close>).
  \<^item> \<open>Drop\<close>: \<open>drop_List\<close> and its loop \<open>drop_loop\<close> (\<open>partial_function (option)\<close>),
    and \<open>drop_glue\<close>, the compiler's recursive teardown that the loop replaces, with
    an explicit budget of stack frames.
  \<^item> \<open>Machine\<close>: one client operation \<open>step alloc\<close> (the queue methods, a
    traversal, an update loop over \<open>iter_mut\<close>, a drain through \<open>into_iter\<close>
    followed by the drop of the exhausted iterator), a run \<open>run alloc\<close>, both
    \<open>None\<close> when a client loop does not end; the inductive set \<open>reachable\<close> of states
    reached from \<open>new\<close> on an empty heap, each step with any allocator meeting
    \<open>alloc_ok\<close>; the simulation \<open>sim\<close> between a state and a contract list; the pointer
    typing \<open>state_typed\<close>.
  \<^item> \<open>Two_Queues\<close>: a client holding two queues over one heap and one allocator,
    \<open>step2\<close> and \<open>run2\<close> addressing each operation to one of them, the contract
    \<open>arun2\<close> of two independent lists and the projections \<open>ops_of\<close>, \<open>outs_of\<close>.
  \<^item> this theory: the test \<open>basics\<close> as \<open>basics_ops\<close>, and the properties that span
    the components.

  \<^bold>\<open>What is proved.\<close> Claims C1--C34, each after a text naming it:
  \<^item> refinement: \<open>push\<close>, \<open>pop\<close>, \<open>peek\<close> implement the list contract (C2--C4),
    and so does every sequence of operations, the iterator loops included, with any
    allocator meeting its contract (C1, spec P3);
  \<^item> the spec's properties P2 (C10), P4 (C11), P5 (C6), P6 (C14--C16), and
    the write through \<open>peek_mut\<close> (C7);
  \<^item> the reachable states: by rule induction, every reachable state is a well-formed
    queue (C8) that owns exactly the live cells (C18) and whose pointers are all null or
    live (C25), and no operation there meets undefined behaviour or runs forever (C9);
    conversely every such state is reachable (C5), so these invariants are exact;
  \<^item> liveness: from every reachable state a pushed element is delivered after exactly
    the queue's current elements (C26);
  \<^item> the destructor frees exactly the chain (C12) and ends on every sound heap, even on
    a cyclic chain, because each iteration frees a live cell (C13);
  \<^item> operations on one queue leave a queue over a disjoint chain untouched (C17); two
    queues sharing a heap and an allocator implement two independent contracts under any
    interleaving (C29), and each returns what it would return alone (C30);
  \<^item> ownership over the lifecycle: dropping a reachable queue empties the heap (C19);
  \<^item> the undefined-behaviour branches: \<open>push\<close> through a dangling tail pointer (the
    state a missing tail reset leaves), \<open>pop\<close> and \<open>peek\<close> through a dangling head
    (C20, C21);
  \<^item> locality standing for the spec's constant-time \<open>push\<close>: it reads and writes only
    the tail node and the new node, whatever the head and the rest of the heap hold (C22);
  \<^item> the round trip push-then-pop on a new queue restores the heap (C23), and the
    destructor is equivalent to draining the consuming iterator (C24);
  \<^item> the recursive teardown: equal to the loop given enough stack (C27), and
    overflowing on queues the program builds for every stack size, which the loop frees
    (C28);
  \<^item> the drop inside \<open>push\<close>'s write: on every reachable state it frees nothing and
    \<open>push\<close> allocates exactly one cell (C32); on a corrupted queue it frees the chain
    the tail node still links to (C31), or never returns if that chain runs into a cycle
    of any length (C33);
  \<^item> a consuming iterator abandoned after any number of steps frees, with its drop,
    every remaining node exactly once (C34).
  The test \<open>basics\<close> is also evaluated on the model (\<open>basics_trace\<close>).

  \<^bold>\<open>Bounds and loops.\<close> There is no fuel: the loops of \<open>drop\<close> and of the iterator
  clients are \<open>partial_function (option)\<close>, and the theorems prove that they return
  \<open>Some\<close> (by induction over the chain under the invariant, and for \<open>drop\<close> by the
  number of live cells on any finite heap). The drop glue \<open>drop_link\<close> is a
  \<open>partial_function (option)\<close> too: on a null-terminated chain it returns by induction
  over the chain, and C33 proves by fixpoint induction that it does not return on a
  cycle. The only bound is the stack budget \<open>k\<close> of \<open>drop_glue\<close>, which stands for
  the finite call stack of the machine; \<open>drop_glue_lseg\<close> and
  \<open>drop_glue_overflow\<close> show that \<open>k\<close> frames suffice exactly for chains of at most
  \<open>k\<close> nodes. Addresses carry no arithmetic, so no width.

  \<^bold>\<open>Plan for the development.\<close> Done: the heap and chain library, an allocator
  contract with a reusing instance, the queue core, the client state machine with the
  iterator loops, the destructor and the recursive teardown it replaces, the three
  iterators, the source's test, two queues interleaved over one heap, the drop glue that
  \<open>push\<close>'s write runs and that of an abandoned \<open>IntoIter\<close>. Every function and
  type of \<open>src/src/fifth.rs\<close> is now a definition; what remains outside is listed
  below, with the reason.

  \<^bold>\<open>Not modelled.\<close> Rust's borrow checker and its aliasing model (Stacked Borrows):
  the heap here is untyped memory in which a raw pointer may be used while its node is
  live, and designates whatever node the allocator later places at its address. In Rust a
  pointer to a freed allocation keeps no right to access a node later placed at the same
  address; the model does not track this provenance, which is why no theorem relies on a
  write through a stale pointer succeeding. So the finding that \<open>push\<close> invalidates \<open>raw_tail\<close> by moving the box is outside the
  model: the retagging rules of that aliasing model are defined neither by this
  repository nor by its spec, and a model of them would be a model of the checker, not of
  the program. Allocation failure (fatal in Rust) is not modelled. Elements are opaque
  values: the drop of an element of type \<open>T\<close> when its node is freed has no effect in
  the model. The source implements \<open>Iterator\<close> for \<open>IntoIter\<close>
  only; the advance steps of \<open>Iter\<close> and \<open>IterMut\<close> follow the spec.
\<close>

section \<open>The source's regression test\<close>

text \<open>The operations of the test \<open>basics\<close> in \<open>src/src/fifth.rs\<close>, in its order.\<close>

definition basics_ops :: "nat op list" where
  "basics_ops =
     [Pop, Push 1, Push 2, Push 3, Pop, Pop, Push 4, Push 5, Pop, Pop, Pop, Pop,
      Push 6, Push 7, Pop, Pop, Pop]"

section \<open>Lemmas\<close>

lemma sim_new: "mem_ok m \<Longrightarrow> sim (new, m) []"
  by (simp add: sim_def)

text \<open>The test \<open>basics\<close> of the source (spec section 8), run on
  the model from \<open>List::new()\<close> and an empty heap with the first-fit allocator,
  returns exactly the values its assertions expect, and ends with an empty queue and
  every node freed; the allocator reuses freed cells, so no more than three addresses
  are ever used.\<close>

lemma basics_trace:
  "run first_fit basics_ops (new, empty_mem) =
     Some (Inr ([Popped None, Pushed, Pushed, Pushed, Popped (Some 1), Popped (Some 2),
                 Pushed, Pushed, Popped (Some 3), Popped (Some 4), Popped (Some 5), Popped None,
                 Pushed, Pushed, Popped (Some 6), Popped (Some 7), Popped None],
                new, \<lparr>cells = Map.empty, brk = 3\<rparr>))"
  by (simp add: basics_ops_def push_def pop_def box_new_def Let_def first_fit_def new_def assign_next_def
      empty_mem_def fun_upd_twist upt_rec)

section \<open>Properties that span the components\<close>

text \<open>C10 (spec P2, FIFO order): on a new queue, pushing \<open>e1 \<dots> eN\<close> and then popping
  \<open>N\<close> times returns \<open>e1 \<dots> eN\<close> in that order and leaves an empty queue, whatever
  the (sound) heap it starts from.\<close>

theorem fifo_order:
  assumes "mem_ok m" and "alloc_ok alloc"
  shows "\<exists>m'. run alloc (map Push xs @ replicate (length xs) Pop) (new, m) =
           Some (Inr (replicate (length xs) Pushed @ map (Popped \<circ> Some) xs, new, m')) \<and> mem_ok m'"
proof -
  obtain s' where "run alloc (map Push xs @ replicate (length xs) Pop) (new, m) =
      Some (Inr (fst (arun (map Push xs @ replicate (length xs) Pop) []), s'))"
    and "sim s' (snd (arun (map Push xs @ replicate (length xs) Pop) []))"
    using run_sim [OF sim_new [OF assms(1)] assms(2)] by blast
  then show ?thesis using arun_fifo [of xs "[]"] sim_Nil_new by (cases s') fastforce
qed

text \<open>C11 (spec P4, tail reset): after a well-formed queue is emptied by pops, a push
  followed by a pop returns exactly the pushed element and leaves the queue empty: the
  tail pointer was reset when the last node went, so the new node becomes the head.\<close>

theorem tail_reset_push_pop:
  assumes "queue_repr (cells m) l as" and "mem_ok m" and "alloc_ok alloc"
  shows "\<exists>m'. run alloc (replicate (length as) Pop @ [Push x, Pop]) (l, m) =
           Some (Inr (map (Popped \<circ> Some) (vals (cells m) as) @ [Pushed, Popped (Some x)], new, m'))"
proof -
  have sim: "sim (l, m) (vals (cells m) as)" using assms by (auto simp: sim_def)
  have "arun (replicate (length as) Pop @ [Push x, Pop]) (vals (cells m) as) =
        (map (Popped \<circ> Some) (vals (cells m) as) @ [Pushed, Popped (Some x)], [])"
    using arun_pops [of "vals (cells m) as" "[]"] by (simp add: arun_append apush_def)
  with run_sim [OF sim assms(3), of "replicate (length as) Pop @ [Push x, Pop]"] sim_Nil_new
  show ?thesis by (metis fst_conv snd_conv prod.collapse)
qed

text \<open>C19 (spec 3, lifecycle): destroying any queue that a sequence of operations built
  from \<open>List::new()\<close> on an empty heap frees every node: afterwards no cell of the heap
  is live. Together with C18 this is the absence of leaks and double frees over the
  whole lifecycle.\<close>

theorem reachable_drop_frees_all:
  assumes "reachable (l, m)"
  shows "drop_List l m = Some (Inr (m\<lparr>cells := Map.empty\<rparr>))"
  using reachable_owned [OF assms] owned_drop_empty by blast

text \<open>C24 (equivalence, spec 4.1 and 4.2): the destructor's loop, which detaches and
  frees nodes without moving their elements out, has the same effect on the heap as
  draining the queue through its consuming iterator, i.e. as calling \<open>pop\<close> until it
  returns nothing.\<close>

theorem drop_equiv_into_iter:
  assumes "queue_repr (cells m) l as"
  shows "\<exists>xs m'. into_iter_collect (into_iter l) m [] = Some (Inr (xs, IntoIter new, m')) \<and>
                drop_List l m = Some (Inr m')"
proof -
  have "into_iter_collect (into_iter l) m [] =
          Some (Inr (vals (cells m) as, IntoIter new, m\<lparr>cells := cells m |` (- set as)\<rparr>))"
    using into_iter_collect_repr [OF assms, of "[]"] by (simp add: into_iter_def)
  moreover have "drop_List l m = Some (Inr (m\<lparr>cells := cells m |` (- set as)\<rparr>))"
    using assms by (simp add: drop_List_def repr_simps drop_loop_lseg)
  ultimately show ?thesis by blast
qed

text \<open>C28 (stack safety of destruction, spec sections 3 and 7): for every stack budget of
  \<open>k\<close> frames there is a queue that the program builds, by \<open>k + 1\<close> pushes onto
  \<open>List::new()\<close>, whose compiler-generated recursive teardown would overflow the stack,
  while the source's destructor loop frees all of its nodes. The loop is needed, not an
  optimisation.\<close>

theorem recursive_drop_overflows:
  "\<exists>s. run bump (replicate (Suc k) (Push x)) (new, empty_mem) =
         Some (Inr (replicate (Suc k) Pushed, s)) \<and>
       reachable s \<and> drop_glue k (head (fst s)) (snd s) = None \<and>
       drop_List (fst s) (snd s) = Some (Inr ((snd s)\<lparr>cells := Map.empty\<rparr>))"
proof -
  let ?cs = "replicate (Suc k) (Push x)"
  have "arun (map Push (replicate (Suc k) x)) [] = (replicate (Suc k) Pushed, replicate (Suc k) x)"
    using arun_pushes [of "replicate (Suc k) x" "[]"] by (simp only: length_replicate append_Nil)
  then have "arun ?cs [] = (replicate (Suc k) Pushed, replicate (Suc k) x)" by simp
  then obtain s where r: "run bump ?cs (new, empty_mem) = Some (Inr (replicate (Suc k) Pushed, s))"
    and "sim s (replicate (Suc k) x)"
    using run_sim [OF sim_init alloc_ok_bump, of ?cs] by auto
  then obtain as where repr: "queue_repr (cells (snd s)) (fst s) as" and len: "length as = Suc k"
    by (auto simp: sim_def dest: arg_cong [where f = length])
  have reach: "reachable s" using reachable_run [OF reachable.init alloc_ok_bump r] .
  then obtain bs where "queue_repr (cells (snd s)) (fst s) bs" and "dom (cells (snd s)) = set bs"
    using reachable_owned [of "fst s" "snd s"] by auto
  with repr have "dom (cells (snd s)) = set as" using queue_repr_unique by blast
  moreover have "drop_glue k (head (fst s)) (snd s) = None"
    using repr len by (intro drop_glue_overflow [of "snd s" _ as]) (auto simp: repr_simps)
  ultimately show ?thesis using r reach owned_drop_empty [OF repr] by blast
qed

section \<open>Witnesses\<close>

theorem fifo_order_witness:
  "mem_ok (empty_mem :: nat mem) \<and>
   (\<exists>m'. run first_fit (map Push [1, 2, 3] @ replicate 3 Pop) (new, empty_mem) =
          Some (Inr ([Pushed, Pushed, Pushed, Popped (Some 1), Popped (Some 2), Popped (Some (3::nat))],
                     new, m')) \<and> mem_ok m')"
  using fifo_order [of empty_mem first_fit "[1, 2, 3 :: nat]"] by (simp add: numeral_3_eq_3)

theorem tail_reset_push_pop_witness:
  "queue_repr (cells ex_mem) ex_list [0, 1] \<and> mem_ok ex_mem \<and>
   (\<exists>m'. run first_fit [Pop, Pop, Push 9, Pop] (ex_list, ex_mem) =
          Some (Inr ([Popped (Some 10), Popped (Some 20), Pushed, Popped (Some 9)], new, m')))"
  using ex_repr tail_reset_push_pop [of ex_mem ex_list "[0, 1]" first_fit 9] by (simp add: numeral_2_eq_2)

theorem reachable_drop_frees_all_witness:
  "drop_List \<lparr>head = Some 0, tail = Some 0\<rparr>
      \<lparr>cells = Map.empty(0 \<mapsto> \<lparr>elem = 5 :: nat, next = None\<rparr>), brk = 1\<rparr> =
   Some (Inr \<lparr>cells = Map.empty, brk = 1\<rparr>)"
  using reachable_drop_frees_all [OF reachable_one] by simp

theorem drop_equiv_into_iter_witness:
  "queue_repr (cells ex_mem) ex_list [0, 1] \<and>
   (\<exists>xs m'. into_iter_collect (into_iter ex_list) ex_mem [] = Some (Inr (xs, IntoIter new, m')) \<and>
           drop_List ex_list ex_mem = Some (Inr m'))"
  using ex_repr drop_equiv_into_iter [of ex_mem ex_list "[0, 1]"] by simp

end
